theory Spec2Isabelle
  imports Complex_Main "HOL-Library.Multiset"
begin

section \<open>Data model of the expiry engine (cache\_expire.c)\<close>

text \<open>
  Pointers to \<open>struct objcore\<close>, \<open>struct object\<close>, \<open>struct lru\<close> and \<open>struct objhead\<close> are
  natural numbers indexing a store. The C type \<open>double\<close> of the wall-clock times is
  modelled by \<open>real\<close>: rounding is not modelled, and there is no NaN (the source asserts
  \<open>!isnan(when)\<close> in \<open>exp_when\<close>). The bit set \<open>oc->flags\<close> is a set of flag names:
  \<open>flags |= F\<close> is a union, \<open>flags & F\<close> a membership test and \<open>flags &= ~F\<close> a set
  difference.
\<close>

datatype oc_flag = OC_F_BUSY | OC_F_OFFLRU | OC_F_DYING | OC_F_MOVE | OC_F_INSERT

record exp_rec =
  ttl :: real
  grace :: real
  keep :: real
  t_origin :: real

record object =
  objcore :: "nat option"
  o_exp :: exp_rec

record objcore =
  timer_when :: real
  timer_idx :: nat
  last_lru :: real
  flags :: "oc_flag set"
  refcnt :: int
  objhead :: nat
  oc_lru :: nat
  oc_obj :: nat

text \<open>
  The declarations of \<open>struct objcore\<close>, \<open>struct object\<close> and \<open>struct lru\<close> (cache.h) are
  not in src; the records have the fields cache\_expire.c reads and writes. \<open>oc_lru\<close> and
  \<open>oc_obj\<close> hold what the lookups \<open>oc_getlru(oc)\<close> and \<open>oc_getobj(oc)\<close> return. \<open>lru_mtx\<close>
  and \<open>oh_mtx\<close> say that the mutex is held by another thread at the moment of the call:
  \<open>Lck_Trylock\<close> then returns non-zero, and \<open>Lck_Lock\<close> waits. \<open>lru_dontmove\<close> is
  \<open>lru->flags & LRU_F_DONTMOVE\<close>. The counters of \<open>VSC_C_main\<close> are fields of the state.
  Logging (\<open>VSL\<close>, \<open>VSLb\<close>), \<open>oc_updatemeta\<close>, \<open>STV_Freestore\<close> and the signal on the
  condition variable change nothing of this state and are left out. The tail queues
  (the macros of vqueue.h, not in src) are lists of objcores, the head first:
  \<open>VTAILQ_INSERT_HEAD\<close> is \<open>#\<close>, \<open>VTAILQ_INSERT_TAIL\<close> appends, \<open>VTAILQ_FIRST\<close> is the
  head, \<open>VTAILQ_FOREACH\<close> visits the elements from the head on, and \<open>VTAILQ_REMOVE\<close> of
  an objcore that is on the queue is \<open>remove1\<close>.
\<close>

record lru =
  lru_head :: "nat list"
  lru_mtx :: bool
  lru_dontmove :: bool
  n_objcore :: nat

record cache =
  ocs :: "nat \<Rightarrow> objcore"
  objs :: "nat \<Rightarrow> object"
  lrus :: "nat \<Rightarrow> lru"
  oh_mtx :: "nat \<Rightarrow> bool"
  inbox :: "nat list"
  heap :: "nat list"
  n_expired :: nat
  n_lru_moved :: nat
  n_lru_nuked :: nat

text \<open>
  A failed assertion (\<open>assert\<close>, \<open>AN\<close>, \<open>AZ\<close>, \<open>WRONG\<close>, \<open>CHECK_OBJ_NOTNULL\<close>) aborts the
  process: \<open>AssertFail\<close>. \<open>Lck_Lock\<close> on a mutex that another thread holds does not return
  before that thread releases it: \<open>Blocked\<close>. The mutex of \<open>exphdl\<close> is private to this
  file and every operation below releases it before it returns, so it is free whenever
  an operation starts and is not part of the state.

  An objcore has one link field, \<open>lru_list\<close>, for its LRU list and for the inbox, and
  \<open>VTAILQ_REMOVE\<close> does not look at the queue it is given: it writes through the
  pointers the link field holds. Applied to an objcore that is not on the queue it
  writes through the pointers left from the queue the objcore was on last; the call
  goes on and returns, but what it leaves are no queues any more (a head can end up
  pointing into another queue), and no state of this model, whose queues are lists,
  describes it: \<open>StaleLink\<close>. \<open>EXP_Touch\<close> and \<open>EXP_Rearm\<close> apply the macro to the objcore
  their caller hands them whenever \<open>OFFLRU\<close> is clear, and \<open>exp_inbox\<close> leaves a \<open>DYING\<close>
  objcore with \<open>OFFLRU\<close> clear and on no list, so in these two the case is written out.
  The other calls of the macro take the objcore from a queue or from the heap: the head
  of the inbox in \<open>exp_thread\<close>, the objcore the scan of \<open>EXP_NukeOne\<close> stands at, and in
  \<open>exp_expire\<close> the root of the heap, which is on its LRU list when \<open>OFFLRU\<close> is clear
  in every state the operations reach (lemma \<open>reach_root_linked\<close> below).
\<close>

datatype fault = AssertFail | Blocked | StaleLink

definition oc_upd :: "cache \<Rightarrow> nat \<Rightarrow> (objcore \<Rightarrow> objcore) \<Rightarrow> cache" where
  "oc_upd st oc f = st\<lparr>ocs := (ocs st)(oc := f (ocs st oc))\<rparr>"

definition lru_upd :: "cache \<Rightarrow> nat \<Rightarrow> (lru \<Rightarrow> lru) \<Rightarrow> cache" where
  "lru_upd st l f = st\<lparr>lrus := (lrus st)(l := f (lrus st l))\<rparr>"

text \<open>
  Modelled from the spec: \<open>oc_getlru\<close> is not in src (section 6, storage domain lookup:
  given an objcore, return its LRU set; idempotent).
\<close>

definition oc_getlru :: "cache \<Rightarrow> nat \<Rightarrow> nat" where
  "oc_getlru st oc = oc_lru (ocs st oc)"

text \<open>
  Modelled from the spec: \<open>oc_getobj\<close> is not in src (section 6, object accessor: given an
  objcore, obtain the full object and its timer fields).
\<close>

definition oc_getobj :: "cache \<Rightarrow> nat \<Rightarrow> object" where
  "oc_getobj st oc = objs st (oc_obj (ocs st oc))"

text \<open>
  Modelled from the spec: \<open>HSH_Ref\<close> is not in src (section 6: atomic \<open>ref(oc)\<close>).
\<close>

definition HSH_Ref :: "cache \<Rightarrow> nat \<Rightarrow> cache" where
  "HSH_Ref st oc = oc_upd st oc (\<lambda>c. c\<lparr>refcnt := refcnt c + 1\<rparr>)"

text \<open>
  Modelled from the spec: \<open>HSH_DerefObjCore\<close> is not in src (section 6: atomic \<open>deref(oc)\<close>;
  the teardown of the object when the count reaches zero is outside the core).
\<close>

definition HSH_DerefObjCore :: "cache \<Rightarrow> nat \<Rightarrow> cache" where
  "HSH_DerefObjCore st oc = oc_upd st oc (\<lambda>c. c\<lparr>refcnt := refcnt c - 1\<rparr>)"

subsection \<open>The binary heap with its index callback\<close>

text \<open>
  \<open>object_cmp\<close> and \<open>object_update\<close> are the two callbacks the source hands to
  \<open>binheap_new\<close>.
\<close>

definition object_cmp :: "(nat \<Rightarrow> objcore) \<Rightarrow> nat \<Rightarrow> nat \<Rightarrow> bool" where
  "object_cmp m a b = (timer_when (m a) < timer_when (m b))"

definition object_update :: "(nat \<Rightarrow> objcore) \<Rightarrow> nat \<Rightarrow> nat \<Rightarrow> (nat \<Rightarrow> objcore)" where
  "object_update m p u = m(p := (m p)\<lparr>timer_idx := u\<rparr>)"

text \<open>
  The heap itself, binary\_heap.c, is not in src. It is modelled from section 4.3 of the
  spec: a standard binary min-heap of objcore references ordered by \<open>timer_when\<close> with
  strict \<open><\<close>; every swap or move calls the callback with the new index; removal sets
  the sentinel; the operations are insert, delete(idx), reorder(idx) and peek root. The
  array is a list; the element with heap index \<open>u\<close> is at list position \<open>u - 1\<close>.
\<close>

text \<open>
  Modelled from the spec: \<open>BINHEAP_NOIDX\<close> is not in src (section 3: the sentinel meaning
  "not in heap"); it is no index of the array.
\<close>

definition BINHEAP_NOIDX :: nat where
  "BINHEAP_NOIDX = 0"

text \<open>
  Modelled from the spec: \<open>ROOT_IDX\<close> is not in src; the index of the root (section 4.3).
\<close>

definition ROOT_IDX :: nat where
  "ROOT_IDX = 1"

text \<open>
  Modelled from the spec: \<open>binheap_root\<close> is not in src (section 4.3, peek root: the element
  at the root, \<open>NULL\<close> on an empty heap).
\<close>

definition binheap_root :: "nat list \<Rightarrow> nat option" where
  "binheap_root bh = (case bh of [] \<Rightarrow> None | p # _ \<Rightarrow> Some p)"

text \<open>
  Modelled from the spec: the swap of two elements of the array is not in src (section
  4.3: every swap calls the callback \<open>oc.timer_idx := new_index\<close> for the elements moved).
\<close>

definition binheap_swap ::
  "(nat \<Rightarrow> objcore) \<Rightarrow> nat list \<Rightarrow> nat \<Rightarrow> nat \<Rightarrow> (nat \<Rightarrow> objcore) \<times> nat list" where
  "binheap_swap m bh u v =
     (let p = bh ! (u - 1); q = bh ! (v - 1)
      in (object_update (object_update m q u) p v, bh[u - 1 := q, v - 1 := p]))"

text \<open>
  Modelled from the spec: the sift towards the root is not in src (section 4.3: standard
  binary min-heap, strict \<open><\<close>). It returns the index the element ends at.
\<close>

function binheap_trickleup ::
  "(nat \<Rightarrow> objcore) \<Rightarrow> nat list \<Rightarrow> nat \<Rightarrow> (nat \<Rightarrow> objcore) \<times> nat list \<times> nat" where
  "binheap_trickleup m bh u =
     (if u \<le> ROOT_IDX then (m, bh, u)
      else let v = u div 2
           in if \<not> object_cmp m (bh ! (u - 1)) (bh ! (v - 1)) then (m, bh, u)
              else binheap_trickleup (fst (binheap_swap m bh u v)) (snd (binheap_swap m bh u v)) v)"
  by pat_completeness auto
termination
  by (relation "measure (\<lambda>(m, bh, u). u)") (auto simp: ROOT_IDX_def)

text \<open>
  Modelled from the spec: the choice of the smaller child is not in src (section 4.3:
  standard binary min-heap, strict \<open><\<close>).
\<close>

definition smaller_child :: "(nat \<Rightarrow> objcore) \<Rightarrow> nat list \<Rightarrow> nat \<Rightarrow> nat" where
  "smaller_child m bh u =
     (let v1 = 2 * u; v2 = v1 + 1
      in if v2 \<le> length bh \<and> object_cmp m (bh ! (v2 - 1)) (bh ! (v1 - 1)) then v2 else v1)"

text \<open>
  Modelled from the spec: the sift towards the leaves is not in src (section 4.3: standard
  binary min-heap, strict \<open><\<close>).
\<close>

function binheap_trickledown ::
  "(nat \<Rightarrow> objcore) \<Rightarrow> nat list \<Rightarrow> nat \<Rightarrow> (nat \<Rightarrow> objcore) \<times> nat list \<times> nat" where
  "binheap_trickledown m bh u =
     (if u < ROOT_IDX \<or> length bh < 2 * u then (m, bh, u)
      else let v = smaller_child m bh u
           in if object_cmp m (bh ! (u - 1)) (bh ! (v - 1)) then (m, bh, u)
              else binheap_trickledown (fst (binheap_swap m bh u v)) (snd (binheap_swap m bh u v)) v)"
  by pat_completeness auto
termination
  by (relation "measure (\<lambda>(m, bh, u). Suc (length bh) - u)")
     (auto simp: ROOT_IDX_def binheap_swap_def smaller_child_def Let_def)

declare binheap_trickleup.simps [simp del]
declare binheap_trickledown.simps [simp del]

text \<open>
  Modelled from the spec: \<open>binheap_insert\<close> is not in src (section 4.3, insert: the element
  is appended, told its index, and sifted towards the root).
\<close>

definition binheap_insert ::
  "(nat \<Rightarrow> objcore) \<Rightarrow> nat list \<Rightarrow> nat \<Rightarrow> (nat \<Rightarrow> objcore) \<times> nat list" where
  "binheap_insert m bh p =
     (let u = length bh + 1;
          r = binheap_trickleup (object_update m p u) (bh @ [p]) u
      in (fst r, fst (snd r)))"

text \<open>
  Modelled from the spec: \<open>binheap_reorder\<close> is not in src (section 4.3, reorder(idx): the
  element at \<open>idx\<close> is sifted to its place; \<open>idx\<close> must be an index of the heap).
\<close>

definition binheap_reorder ::
  "(nat \<Rightarrow> objcore) \<Rightarrow> nat list \<Rightarrow> nat \<Rightarrow> fault + (nat \<Rightarrow> objcore) \<times> nat list" where
  "binheap_reorder m bh idx =
     (if idx < ROOT_IDX \<or> length bh < idx then Inl AssertFail
      else let r = binheap_trickleup m bh idx;
               r' = binheap_trickledown (fst r) (fst (snd r)) (snd (snd r))
           in Inr (fst r', fst (snd r')))"

text \<open>
  Modelled from the spec: \<open>binheap_delete\<close> is not in src (section 4.3, delete(idx): removal
  sets the sentinel on the element removed; the last element takes its place and is
  sifted; \<open>idx\<close> must be an index of the heap).
\<close>

definition binheap_delete ::
  "(nat \<Rightarrow> objcore) \<Rightarrow> nat list \<Rightarrow> nat \<Rightarrow> fault + (nat \<Rightarrow> objcore) \<times> nat list" where
  "binheap_delete m bh idx =
     (if idx < ROOT_IDX \<or> length bh < idx then Inl AssertFail
      else let m1 = object_update m (bh ! (idx - 1)) BINHEAP_NOIDX
           in if idx = length bh then Inr (m1, butlast bh)
              else let q = last bh;
                       r = binheap_trickleup (object_update m1 q idx) ((butlast bh)[idx - 1 := q]) idx;
                       r' = binheap_trickledown (fst r) (fst (snd r)) (snd (snd r))
                   in Inr (fst r', fst (snd r')))"

subsection \<open>struct exp manipulations and the wake time\<close>

definition EXP_Clr :: "exp_rec \<Rightarrow> exp_rec" where
  "EXP_Clr e = e\<lparr>ttl := - 1, grace := 0, keep := 0, t_origin := 0\<rparr>"

definition exp_when :: "object \<Rightarrow> real" where
  "exp_when o' = t_origin (o_exp o') + ttl (o_exp o') + grace (o_exp o') + keep (o_exp o')"

subsection \<open>Posting an objcore to the inbox\<close>

definition exp_mail_it :: "cache \<Rightarrow> nat \<Rightarrow> fault + cache" where
  "exp_mail_it st oc =
     (if OC_F_OFFLRU \<notin> flags (ocs st oc) then Inl AssertFail
      else if OC_F_DYING \<in> flags (ocs st oc) then Inr (st\<lparr>inbox := oc # inbox st\<rparr>)
      else Inr (st\<lparr>inbox := inbox st @ [oc]\<rparr>))"

subsection \<open>The public operations\<close>

definition EXP_Inject :: "cache \<Rightarrow> nat \<Rightarrow> nat \<Rightarrow> real \<Rightarrow> fault + cache" where
  "EXP_Inject st oc l when' =
     (if OC_F_OFFLRU \<in> flags (ocs st oc) then Inl AssertFail
      else if lru_mtx (lrus st l) then Inl Blocked
      else let st1 = lru_upd st l (\<lambda>r. r\<lparr>n_objcore := n_objcore r + 1\<rparr>);
               st2 = oc_upd st1 oc (\<lambda>c. c\<lparr>flags := flags c \<union> {OC_F_OFFLRU, OC_F_INSERT}\<rparr>);
               st3 = oc_upd st2 oc (\<lambda>c. c\<lparr>timer_when := when'\<rparr>)
           in exp_mail_it st3 oc)"

definition EXP_Insert :: "cache \<Rightarrow> nat \<Rightarrow> real \<Rightarrow> fault + cache" where
  "EXP_Insert st o' now =
     (case objcore (objs st o') of
        None \<Rightarrow> Inl AssertFail
      | Some oc \<Rightarrow>
          let st1 = HSH_Ref st oc
          in if t_origin (o_exp (objs st1 o')) = 0 then Inl AssertFail
             else let st2 = oc_upd st1 oc (\<lambda>c. c\<lparr>last_lru := now\<rparr>)
                  in if OC_F_OFFLRU \<in> flags (ocs st2 oc) then Inl AssertFail
                     else let l = oc_getlru st2 oc
                          in if lru_mtx (lrus st2 l) then Inl Blocked
                             else let st3 = lru_upd st2 l (\<lambda>r. r\<lparr>n_objcore := n_objcore r + 1\<rparr>);
                                      st4 = oc_upd st3 oc
                                              (\<lambda>c. c\<lparr>flags := flags c \<union> {OC_F_OFFLRU, OC_F_INSERT}\<rparr>);
                                      st5 = oc_upd st4 oc (\<lambda>c. c\<lparr>timer_when := exp_when (objs st4 o')\<rparr>)
                                  in exp_mail_it st5 oc)"

text \<open>
  \<open>EXP_Touch\<close> returns the value of its \<open>return\<close> beside the state it leaves.
\<close>

definition EXP_Touch :: "cache \<Rightarrow> nat \<Rightarrow> (fault + cache) \<times> int" where
  "EXP_Touch st oc =
     (let l = oc_getlru st oc
      in if lru_dontmove (lrus st l) then (Inr st, 0)
         else if lru_mtx (lrus st l) then (Inr st, 0)
         else if OC_F_OFFLRU \<notin> flags (ocs st oc)
              then if oc \<notin> set (lru_head (lrus st l)) then (Inl StaleLink, 1)
                   else (Inr ((lru_upd st l (\<lambda>r. r\<lparr>lru_head := remove1 oc (lru_head r) @ [oc]\<rparr>))
                                \<lparr>n_lru_moved := n_lru_moved st + 1\<rparr>), 1)
              else (Inr st, 1))"

definition EXP_Rearm :: "cache \<Rightarrow> nat \<Rightarrow> fault + cache" where
  "EXP_Rearm st o' =
     (case objcore (objs st o') of
        None \<Rightarrow> Inr st
      | Some oc \<Rightarrow>
          let when' = exp_when (objs st o')
          in if timer_when (ocs st oc) = when' then Inr st
             else let l = oc_getlru st oc
                  in if lru_mtx (lrus st l) then Inl Blocked
                     else let st1 = (if when' < 0
                                     then oc_upd st oc (\<lambda>c. c\<lparr>flags := flags c \<union> {OC_F_DYING}\<rparr>)
                                     else oc_upd st oc (\<lambda>c. c\<lparr>flags := flags c \<union> {OC_F_MOVE}\<rparr>))
                          in if OC_F_OFFLRU \<in> flags (ocs st1 oc) then Inr st1
                             else let st2 = oc_upd st1 oc (\<lambda>c. c\<lparr>flags := flags c \<union> {OC_F_OFFLRU}\<rparr>)
                                  in if oc \<notin> set (lru_head (lrus st2 l)) then Inl StaleLink
                                     else let st3 = lru_upd st2 l
                                                      (\<lambda>r. r\<lparr>lru_head := remove1 oc (lru_head r)\<rparr>)
                                          in exp_mail_it st3 oc)"

text \<open>
  The \<open>VTAILQ_FOREACH\<close> loop of \<open>EXP_NukeOne\<close> over the elements still to visit. It
  returns the objcore it stopped at (\<open>None\<close> for the \<open>NULL\<close> the loop variable holds when
  the list is exhausted).
\<close>

fun nuke_loop :: "cache \<Rightarrow> nat \<Rightarrow> nat list \<Rightarrow> fault + cache \<times> nat option" where
  "nuke_loop st l [] = Inr (st, None)"
| "nuke_loop st l (oc # rest) =
     (if OC_F_DYING \<in> flags (ocs st oc) then Inl AssertFail
      else if OC_F_BUSY \<in> flags (ocs st oc) then nuke_loop st l rest
      else if refcnt (ocs st oc) > 1 then nuke_loop st l rest
      else if oh_mtx st (objhead (ocs st oc)) then nuke_loop st l rest
      else let st1 = (if refcnt (ocs st oc) = 1
                      then let s1 = oc_upd st oc (\<lambda>c. c\<lparr>flags := flags c \<union> {OC_F_DYING, OC_F_OFFLRU}\<rparr>);
                               s2 = oc_upd s1 oc (\<lambda>c. c\<lparr>refcnt := refcnt c + 1\<rparr>);
                               s3 = s2\<lparr>n_lru_nuked := n_lru_nuked s2 + 1\<rparr>
                           in lru_upd s3 l (\<lambda>r. r\<lparr>lru_head := remove1 oc (lru_head r)\<rparr>)
                      else st)
           in if OC_F_DYING \<in> flags (ocs st1 oc) then Inr (st1, Some oc)
              else nuke_loop st1 l rest)"

definition EXP_NukeOne :: "cache \<Rightarrow> nat \<Rightarrow> fault + cache \<times> int" where
  "EXP_NukeOne st l =
     (if lru_mtx (lrus st l) then Inl Blocked
      else case nuke_loop st l (lru_head (lrus st l)) of
             Inl e \<Rightarrow> Inl e
           | Inr (st1, None) \<Rightarrow> Inr (st1, - 1)
           | Inr (st1, Some oc) \<Rightarrow>
               (case exp_mail_it st1 oc of
                  Inl e \<Rightarrow> Inl e
                | Inr st2 \<Rightarrow> Inr (HSH_DerefObjCore st2 oc, 1)))"

subsection \<open>The expiry thread\<close>

definition exp_inbox :: "cache \<Rightarrow> nat \<Rightarrow> real \<Rightarrow> fault + cache" where
  "exp_inbox st oc now =
     (let l = oc_getlru st oc
      in if lru_mtx (lrus st l) then Inl Blocked
         else let fl = flags (ocs st oc)
              in if OC_F_OFFLRU \<notin> fl then Inl AssertFail
                 else let st1 = oc_upd st oc
                                  (\<lambda>c. c\<lparr>flags := flags c - {OC_F_INSERT, OC_F_MOVE, OC_F_OFFLRU}\<rparr>);
                          st2 = oc_upd st1 oc (\<lambda>c. c\<lparr>last_lru := now\<rparr>);
                          st3 = (if OC_F_DYING \<notin> fl
                                 then lru_upd st2 l (\<lambda>r. r\<lparr>lru_head := lru_head r @ [oc]\<rparr>)
                                 else st2)
                      in if OC_F_DYING \<in> fl
                         then if timer_idx (ocs st3 oc) = BINHEAP_NOIDX then Inl AssertFail
                              else (case binheap_delete (ocs st3) (heap st3) (timer_idx (ocs st3 oc)) of
                                      Inl e \<Rightarrow> Inl e
                                    | Inr (m, bh) \<Rightarrow>
                                        if timer_idx (m oc) \<noteq> BINHEAP_NOIDX then Inl AssertFail
                                        else Inr (HSH_DerefObjCore (st3\<lparr>ocs := m, heap := bh\<rparr>) oc))
                         else let st4 = (if OC_F_MOVE \<in> fl
                                         then oc_upd st3 oc
                                                (\<lambda>c. c\<lparr>timer_when := exp_when (oc_getobj st3 oc)\<rparr>)
                                         else st3)
                              in if OC_F_INSERT \<in> fl
                                 then if timer_idx (ocs st4 oc) \<noteq> BINHEAP_NOIDX then Inl AssertFail
                                      else (case binheap_insert (ocs st4) (heap st4) oc of
                                              (m, bh) \<Rightarrow>
                                                if timer_idx (m oc) = BINHEAP_NOIDX then Inl AssertFail
                                                else Inr (st4\<lparr>ocs := m, heap := bh\<rparr>))
                                 else if OC_F_MOVE \<in> fl
                                 then if timer_idx (ocs st4 oc) = BINHEAP_NOIDX then Inl AssertFail
                                      else (case binheap_reorder (ocs st4) (heap st4) (timer_idx (ocs st4 oc)) of
                                              Inl e \<Rightarrow> Inl e
                                            | Inr (m, bh) \<Rightarrow>
                                                if timer_idx (m oc) = BINHEAP_NOIDX then Inl AssertFail
                                                else Inr (st4\<lparr>ocs := m, heap := bh\<rparr>))
                                 else Inl AssertFail)"

definition exp_expire :: "cache \<Rightarrow> real \<Rightarrow> fault + cache \<times> real" where
  "exp_expire st now =
     (case binheap_root (heap st) of
        None \<Rightarrow> Inr (st, now + 355 / 113)
      | Some oc \<Rightarrow>
          if timer_when (ocs st oc) > now then Inr (st, timer_when (ocs st oc))
          else if OC_F_BUSY \<in> flags (ocs st oc) then Inr (st, now + 0.01)
          else let st1 = st\<lparr>n_expired := n_expired st + 1\<rparr>;
                   l = oc_getlru st1 oc
               in if lru_mtx (lrus st1 l) then Inl Blocked
                  else let st2 = oc_upd st1 oc (\<lambda>c. c\<lparr>flags := flags c \<union> {OC_F_DYING}\<rparr>)
                       in if OC_F_OFFLRU \<in> flags (ocs st2 oc) then Inr (st2, now + 0.001)
                          else let st3 = oc_upd st2 oc (\<lambda>c. c\<lparr>flags := flags c \<union> {OC_F_OFFLRU}\<rparr>);
                                   st4 = lru_upd st3 l (\<lambda>r. r\<lparr>lru_head := remove1 oc (lru_head r)\<rparr>)
                               in if timer_idx (ocs st4 oc) = BINHEAP_NOIDX then Inl AssertFail
                                  else (case binheap_delete (ocs st4) (heap st4) (timer_idx (ocs st4 oc)) of
                                          Inl e \<Rightarrow> Inl e
                                        | Inr (m, bh) \<Rightarrow>
                                            if timer_idx (m oc) \<noteq> BINHEAP_NOIDX then Inl AssertFail
                                            else Inr (HSH_DerefObjCore (st4\<lparr>ocs := m, heap := bh\<rparr>) oc, 0)))"

text \<open>
  One iteration of the endless loop of \<open>exp_thread\<close>. The local variables \<open>t\<close> and
  \<open>tnext\<close> are kept beside the cache; \<open>now\<close> is what \<open>VTIM_real()\<close> returns in this
  iteration. Waiting on the condition variable changes nothing in the state.
\<close>

record exp_locals =
  t_loc :: real
  tnext :: real

definition exp_dequeue :: "cache \<Rightarrow> cache \<times> nat option" where
  "exp_dequeue st =
     (case inbox st of
        [] \<Rightarrow> (st, None)
      | oc # rest \<Rightarrow> (st\<lparr>inbox := remove1 oc (inbox st)\<rparr>, Some oc))"

definition exp_thread_iter :: "cache \<times> exp_locals \<Rightarrow> real \<Rightarrow> fault + cache \<times> exp_locals" where
  "exp_thread_iter sl now =
     (case exp_dequeue (fst sl) of
        (st1, Some oc) \<Rightarrow>
          (case exp_inbox st1 oc now of
             Inl e \<Rightarrow> Inl e
           | Inr st2 \<Rightarrow> Inr (st2, \<lparr>t_loc = now, tnext = 0\<rparr>))
      | (st1, None) \<Rightarrow>
          (case exp_expire st1 now of
             Inl e \<Rightarrow> Inl e
           | Inr (st2, r) \<Rightarrow> Inr (st2, \<lparr>t_loc = now, tnext = r\<rparr>)))"

section \<open>Notions used to state and prove the claims\<close>

text \<open>
  \<open>mail_all\<close> posts several objcores one after the other; \<open>exp_drain n\<close> is the order in
  which the thread takes the next \<open>n\<close> objcores out of the inbox when nothing else is
  posted meanwhile. \<open>nuke_candidate\<close> is the test \<open>EXP_NukeOne\<close> applies to an objcore of
  the LRU list: not \<open>BUSY\<close>, a reference count of one, and the mutex of its objhead free.
\<close>

fun mail_all :: "cache \<Rightarrow> nat list \<Rightarrow> fault + cache" where
  "mail_all st [] = Inr st"
| "mail_all st (oc # rest) =
     (case exp_mail_it st oc of Inl e \<Rightarrow> Inl e | Inr st1 \<Rightarrow> mail_all st1 rest)"

fun exp_drain :: "nat \<Rightarrow> cache \<Rightarrow> nat list" where
  "exp_drain 0 st = []"
| "exp_drain (Suc n) st =
     (case exp_dequeue st of
        (st1, None) \<Rightarrow> []
      | (st1, Some oc) \<Rightarrow> oc # exp_drain n st1)"


text \<open>
  The state \<open>exp_inbox\<close> leaves its critical section with: \<open>inbox_mark\<close> when the objcore
  is \<open>DYING\<close> (action flags cleared, \<open>last_lru\<close> set), \<open>inbox_link\<close> when it is not (linked
  at the tail of its LRU list as well, and \<open>timer_when\<close> recomputed under \<open>MOVE\<close>).
\<close>

definition inbox_mark :: "cache \<Rightarrow> nat \<Rightarrow> real \<Rightarrow> cache" where
  "inbox_mark st oc now =
     oc_upd (oc_upd st oc (\<lambda>c. c\<lparr>flags := flags c - {OC_F_INSERT, OC_F_MOVE, OC_F_OFFLRU}\<rparr>)) oc
       (\<lambda>c. c\<lparr>last_lru := now\<rparr>)"

definition inbox_link :: "cache \<Rightarrow> nat \<Rightarrow> real \<Rightarrow> cache" where
  "inbox_link st oc now =
     (let s = lru_upd (inbox_mark st oc now) (oc_getlru st oc) (\<lambda>r. r\<lparr>lru_head := lru_head r @ [oc]\<rparr>)
      in if OC_F_MOVE \<in> flags (ocs st oc)
         then oc_upd s oc (\<lambda>c. c\<lparr>timer_when := exp_when (oc_getobj st oc)\<rparr>)
         else s)"

subsection \<open>Interleavings of the operations\<close>

text \<open>
  The operations are taken as atomic steps. \<open>env_step\<close> is what the rest of the program
  may do between two of them: anything that leaves alone the inbox, the heap, the LRU
  lists, the flags of the objcores other than \<open>BUSY\<close>, their timers and their LRU. A
  state is reachable from a state with empty inbox, heap and LRU lists. \<open>EXP_Inject\<close> and
  \<open>EXP_Insert\<close> are called for an objcore that is on no LRU list (the object has just
  been added to the cache; a linked objcore cannot be posted, since one link field
  serves the LRU list and the inbox). A step is an operation that returns and leaves
  queues: a call of \<open>EXP_Touch\<close> or \<open>EXP_Rearm\<close> that comes to \<open>StaleLink\<close> is no step, and
  \<open>reach\<close> says nothing about the states of the program after such a call.
\<close>

definition env_step :: "cache \<Rightarrow> cache \<Rightarrow> bool" where
  "env_step st st' \<longleftrightarrow>
     inbox st' = inbox st \<and> heap st' = heap st
     \<and> (\<forall>l. lru_head (lrus st' l) = lru_head (lrus st l))
     \<and> (\<forall>x. flags (ocs st' x) - {OC_F_BUSY} = flags (ocs st x) - {OC_F_BUSY}
            \<and> timer_when (ocs st' x) = timer_when (ocs st x)
            \<and> timer_idx (ocs st' x) = timer_idx (ocs st x)
            \<and> oc_lru (ocs st' x) = oc_lru (ocs st x))"

inductive reach :: "cache \<Rightarrow> bool" where
  reach_init: "inbox st = [] \<Longrightarrow> heap st = [] \<Longrightarrow> \<forall>l. lru_head (lrus st l) = [] \<Longrightarrow> reach st"
| reach_env: "reach st \<Longrightarrow> env_step st st' \<Longrightarrow> reach st'"
| reach_Inject: "reach st \<Longrightarrow> \<forall>l'. oc \<notin> set (lru_head (lrus st l')) \<Longrightarrow>
     EXP_Inject st oc l w = Inr st' \<Longrightarrow> reach st'"
| reach_Insert: "reach st \<Longrightarrow> objcore (objs st o') = Some oc \<Longrightarrow>
     \<forall>l'. oc \<notin> set (lru_head (lrus st l')) \<Longrightarrow>
     EXP_Insert st o' now = Inr st' \<Longrightarrow> reach st'"
| reach_Touch: "reach st \<Longrightarrow> EXP_Touch st oc = (Inr st', r) \<Longrightarrow> reach st'"
| reach_Rearm: "reach st \<Longrightarrow> EXP_Rearm st o' = Inr st' \<Longrightarrow> reach st'"
| reach_NukeOne: "reach st \<Longrightarrow> EXP_NukeOne st l = Inr (st', r) \<Longrightarrow> reach st'"
| reach_thread: "reach st \<Longrightarrow> exp_thread_iter (st, loc) now = Inr (st', loc') \<Longrightarrow> reach st'"

text \<open>
  The invariant behind the flags of the objcores in the inbox: they have \<open>OFFLRU\<close> and
  one of the action flags, no objcore is in the inbox twice, the objcores on an LRU list
  have \<open>OFFLRU\<close> clear and belong to that LRU, and no objcore is on an LRU list twice.
\<close>

definition mail_inv :: "cache \<Rightarrow> bool" where
  "mail_inv st \<longleftrightarrow>
     (\<forall>x\<in>set (inbox st). OC_F_OFFLRU \<in> flags (ocs st x)
         \<and> (OC_F_INSERT \<in> flags (ocs st x) \<or> OC_F_MOVE \<in> flags (ocs st x)
             \<or> OC_F_DYING \<in> flags (ocs st x)))
     \<and> distinct (inbox st)
     \<and> (\<forall>l. \<forall>x\<in>set (lru_head (lrus st l)). OC_F_OFFLRU \<notin> flags (ocs st x) \<and> oc_lru (ocs st x) = l)
     \<and> (\<forall>l. distinct (lru_head (lrus st l)))"

text \<open>
  The invariant behind the unlinking in \<open>exp_expire\<close>: no objcore is in the heap twice,
  the objcores in the heap have a heap index, and those of them with \<open>OFFLRU\<close> clear are
  on their LRU list.
\<close>

definition heap_inv :: "cache \<Rightarrow> bool" where
  "heap_inv st \<longleftrightarrow>
     distinct (heap st)
     \<and> (\<forall>x\<in>set (heap st). timer_idx (ocs st x) \<noteq> BINHEAP_NOIDX
          \<and> (OC_F_OFFLRU \<notin> flags (ocs st x)
               \<longrightarrow> x \<in> set (lru_head (lrus st (oc_lru (ocs st x))))))"

section \<open>Example states\<close>

text \<open>
  \<open>cache_init\<close> is the engine after \<open>EXP_Init\<close>: empty inbox, empty heap, empty LRU
  lists; object \<open>i\<close> belongs to objcore \<open>i\<close> and has origin 100 and a ttl of 10.
  \<open>ex_locals\<close> are the local variables of the thread when it starts.
\<close>

definition oc_init :: "nat \<Rightarrow> objcore" where
  "oc_init i = \<lparr>timer_when = 0, timer_idx = BINHEAP_NOIDX, last_lru = 0, flags = {}, refcnt = 1,
                objhead = i, oc_lru = 0, oc_obj = i\<rparr>"

definition obj_init :: "nat \<Rightarrow> object" where
  "obj_init i = \<lparr>objcore = Some i, o_exp = \<lparr>ttl = 10, grace = 0, keep = 0, t_origin = 100\<rparr>\<rparr>"

definition lru_init :: lru where
  "lru_init = \<lparr>lru_head = [], lru_mtx = False, lru_dontmove = False, n_objcore = 0\<rparr>"

definition cache_init :: cache where
  "cache_init = \<lparr>ocs = oc_init, objs = obj_init, lrus = (\<lambda>l. lru_init), oh_mtx = (\<lambda>h. False),
                 inbox = [], heap = [], n_expired = 0, n_lru_moved = 0, n_lru_nuked = 0\<rparr>"

definition ex_locals :: exp_locals where
  "ex_locals = \<lparr>t_loc = 0, tnext = 0\<rparr>"

text \<open>
  \<open>ex_resident\<close> is the state after \<open>EXP_Insert\<close> of object 0 at time 100 and one
  iteration of the thread: objcore 0 is in the heap and on LRU list 0, due at 110.
  \<open>ex_busy\<close> is that state with objcore 0 \<open>BUSY\<close>; in \<open>ex_claimed\<close> objcore 0 has been
  taken off the LRU list and posted by \<open>EXP_Rearm\<close>; in \<open>ex_nuked\<close> it has been marked
  by \<open>EXP_NukeOne\<close> and taken out of the inbox by the thread; in \<open>ex_killed\<close> the timers of
  object 0 have been cleared by \<open>EXP_Clr\<close>.
\<close>

definition ex_resident :: cache where
  "ex_resident = cache_init
     \<lparr>ocs := oc_init(0 := (oc_init 0)\<lparr>timer_when := 110, timer_idx := 1, last_lru := 100, refcnt := 2\<rparr>),
      lrus := (\<lambda>l. lru_init)(0 := lru_init\<lparr>lru_head := [0], n_objcore := 1\<rparr>),
      heap := [0]\<rparr>"

definition ex_busy :: cache where
  "ex_busy = oc_upd ex_resident 0 (\<lambda>c. c\<lparr>flags := {OC_F_BUSY}\<rparr>)"

definition ex_claimed :: cache where
  "ex_claimed = (lru_upd (oc_upd ex_resident 0 (\<lambda>c. c\<lparr>flags := {OC_F_OFFLRU, OC_F_MOVE}\<rparr>)) 0
                   (\<lambda>r. r\<lparr>lru_head := []\<rparr>))\<lparr>inbox := [0]\<rparr>"

definition ex_nuked :: cache where
  "ex_nuked = lru_upd (oc_upd ex_resident 0 (\<lambda>c. c\<lparr>flags := {OC_F_DYING, OC_F_OFFLRU}\<rparr>)) 0
                (\<lambda>r. r\<lparr>lru_head := []\<rparr>)"

definition ex_killed :: cache where
  "ex_killed = ex_resident\<lparr>objs := obj_init(0 := (obj_init 0)\<lparr>o_exp := EXP_Clr (o_exp (obj_init 0))\<rparr>)\<rparr>"

text \<open>
  \<open>ex_lru4\<close> has four objcores on LRU list 0, the first with two references and the
  others with one. In \<open>ex_mail\<close> every objcore is ready to be posted, objcore 2 as
  \<open>DYING\<close>.
\<close>

definition ex_lru4 :: cache where
  "ex_lru4 = cache_init
     \<lparr>ocs := (\<lambda>i. if i < 4
                  then (oc_init i)\<lparr>timer_when := 110, timer_idx := i + 1,
                                   refcnt := (if i = 0 then 2 else 1)\<rparr>
                  else oc_init i),
      lrus := (\<lambda>l. lru_init)(0 := lru_init\<lparr>lru_head := [0, 1, 2, 3], n_objcore := 4\<rparr>),
      heap := [0, 1, 2, 3]\<rparr>"

definition ex_mail :: cache where
  "ex_mail = cache_init
     \<lparr>ocs := (\<lambda>i. (oc_init i)\<lparr>flags := (if i = 2 then {OC_F_OFFLRU, OC_F_DYING}
                                          else {OC_F_OFFLRU, OC_F_INSERT})\<rparr>)\<rparr>"

text \<open>
  A run that kills an object before the thread has seen it: in \<open>ex_cleared\<close> the timers of
  object 0 are cleared, \<open>ex_posted\<close> is the state after \<open>EXP_Inject\<close> of objcore 0 with wake
  time 110, and \<open>ex_early_kill\<close> the state after \<open>EXP_Rearm\<close> of object 0 in that state.
  (\<open>projr\<close> takes the state out of a result \<open>Inr st\<close>; that the operations do return such
  a result is proved below.)
\<close>

definition ex_cleared :: cache where
  "ex_cleared = cache_init\<lparr>objs := obj_init(0 := (obj_init 0)\<lparr>o_exp := EXP_Clr (o_exp (obj_init 0))\<rparr>)\<rparr>"

definition ex_posted :: cache where
  "ex_posted = projr (EXP_Inject ex_cleared 0 0 110)"

definition ex_early_kill :: cache where
  "ex_early_kill = projr (EXP_Rearm ex_posted 0)"

text \<open>
  A run that sets \<open>INSERT\<close> and \<open>MOVE\<close> together: \<open>EXP_Inject\<close> of objcore 0 with wake
  time 105, then \<open>EXP_Rearm\<close> of its object, whose timers give 110.
\<close>

definition ex_injected :: cache where
  "ex_injected = projr (EXP_Inject cache_init 0 0 105)"

definition ex_insert_move :: cache where
  "ex_insert_move = projr (EXP_Rearm ex_injected 0)"

text \<open>
  A run that leaves an objcore with \<open>OFFLRU\<close> clear and on no LRU list: \<open>ex_inserted\<close> is
  the state after \<open>EXP_Insert\<close> of object 0 at time 100, \<open>ex_linked\<close> the state after the
  iteration of the thread that takes objcore 0 from the inbox; in \<open>ex_purged\<close> the timers
  of object 0 have been cleared by \<open>EXP_Clr\<close>, \<open>ex_kill_mail\<close> is the state after \<open>EXP_Rearm\<close>
  of object 0, and \<open>ex_dead\<close> the state after the iteration of the thread that takes
  objcore 0, now \<open>DYING\<close>, from the inbox.
\<close>

definition ex_inserted :: cache where
  "ex_inserted = projr (EXP_Insert cache_init 0 100)"

definition ex_linked :: cache where
  "ex_linked = fst (projr (exp_thread_iter (ex_inserted, ex_locals) 100))"

definition ex_purged :: cache where
  "ex_purged = ex_linked\<lparr>objs := (objs ex_linked)(0 := (objs ex_linked 0)\<lparr>o_exp := EXP_Clr (o_exp (objs ex_linked 0))\<rparr>)\<rparr>"

definition ex_kill_mail :: cache where
  "ex_kill_mail = projr (EXP_Rearm ex_purged 0)"

definition ex_dead :: cache where
  "ex_dead = fst (projr (exp_thread_iter (ex_kill_mail, \<lparr>t_loc = 100, tnext = 0\<rparr>) 111))"

section \<open>Auxiliary facts\<close>

subsection \<open>Projections of the store updates\<close>

lemma oc_upd_simps [simp]:
  "ocs (oc_upd st oc f) = (ocs st)(oc := f (ocs st oc))"
  "objs (oc_upd st oc f) = objs st"
  "lrus (oc_upd st oc f) = lrus st"
  "oh_mtx (oc_upd st oc f) = oh_mtx st"
  "inbox (oc_upd st oc f) = inbox st"
  "heap (oc_upd st oc f) = heap st"
  "n_expired (oc_upd st oc f) = n_expired st"
  "n_lru_moved (oc_upd st oc f) = n_lru_moved st"
  "n_lru_nuked (oc_upd st oc f) = n_lru_nuked st"
  by (simp_all add: oc_upd_def)

lemma lru_upd_simps [simp]:
  "ocs (lru_upd st l f) = ocs st"
  "objs (lru_upd st l f) = objs st"
  "lrus (lru_upd st l f) = (lrus st)(l := f (lrus st l))"
  "oh_mtx (lru_upd st l f) = oh_mtx st"
  "inbox (lru_upd st l f) = inbox st"
  "heap (lru_upd st l f) = heap st"
  "n_expired (lru_upd st l f) = n_expired st"
  "n_lru_moved (lru_upd st l f) = n_lru_moved st"
  "n_lru_nuked (lru_upd st l f) = n_lru_nuked st"
  by (simp_all add: lru_upd_def)


subsection \<open>The heap operations touch only the index of elements of the heap\<close>

definition heap_touch :: "nat set \<Rightarrow> (nat \<Rightarrow> objcore) \<Rightarrow> (nat \<Rightarrow> objcore) \<Rightarrow> bool" where
  "heap_touch S m m' \<longleftrightarrow>
     (\<forall>x. m' x = m x \<or> (x \<in> S \<and> (\<exists>k\<ge>1. m' x = (m x)\<lparr>timer_idx := k\<rparr>)))"

lemma heap_touch_refl: "heap_touch S m m"
  by (simp add: heap_touch_def)

lemma heap_touch_trans:
  assumes "heap_touch S m m1" "heap_touch S m1 m2"
  shows "heap_touch S m m2"
  unfolding heap_touch_def
proof
  fix x
  from assms have a: "m1 x = m x \<or> (x \<in> S \<and> (\<exists>k\<ge>1. m1 x = (m x)\<lparr>timer_idx := k\<rparr>))"
    and b: "m2 x = m1 x \<or> (x \<in> S \<and> (\<exists>k\<ge>1. m2 x = (m1 x)\<lparr>timer_idx := k\<rparr>))"
    by (simp_all add: heap_touch_def)
  from a b show "m2 x = m x \<or> (x \<in> S \<and> (\<exists>k\<ge>1. m2 x = (m x)\<lparr>timer_idx := k\<rparr>))"
    by auto
qed

lemma heap_touch_mono: "heap_touch S m m' \<Longrightarrow> S \<subseteq> T \<Longrightarrow> heap_touch T m m'"
  by (auto simp: heap_touch_def)

lemma heap_touch_update:
  "p \<in> S \<Longrightarrow> 1 \<le> u \<Longrightarrow> heap_touch S m (object_update m p u)"
  by (auto simp: heap_touch_def object_update_def)

lemma binheap_swap_touch:
  assumes "1 \<le> u" "u \<le> length bh" "1 \<le> v" "v \<le> length bh"
  shows "heap_touch (set bh) m (fst (binheap_swap m bh u v))"
proof -
  have p: "bh ! (u - 1) \<in> set bh" and q: "bh ! (v - 1) \<in> set bh"
    using assms by simp_all
  have "heap_touch (set bh) m (object_update m (bh ! (v - 1)) u)"
    using q assms(1) by (rule heap_touch_update)
  moreover have "heap_touch (set bh) (object_update m (bh ! (v - 1)) u)
      (object_update (object_update m (bh ! (v - 1)) u) (bh ! (u - 1)) v)"
    using p assms(3) by (rule heap_touch_update)
  ultimately show ?thesis
    by (simp add: binheap_swap_def Let_def heap_touch_trans)
qed

lemma binheap_swap_mset:
  assumes "1 \<le> u" "u \<le> length bh" "1 \<le> v" "v \<le> length bh"
  shows "mset (snd (binheap_swap m bh u v)) = mset bh"
  using assms by (simp add: binheap_swap_def Let_def mset_swap)

lemma binheap_swap_length: "length (snd (binheap_swap m bh u v)) = length bh"
  by (simp add: binheap_swap_def Let_def)

lemma binheap_trickleup_ok:
  "1 \<le> u \<Longrightarrow> u \<le> length bh \<Longrightarrow>
   heap_touch (set bh) m (fst (binheap_trickleup m bh u))
   \<and> mset (fst (snd (binheap_trickleup m bh u))) = mset bh
   \<and> 1 \<le> snd (snd (binheap_trickleup m bh u))
   \<and> snd (snd (binheap_trickleup m bh u)) \<le> length bh"
proof (induction m bh u rule: binheap_trickleup.induct)
  case (1 m bh u)
  show ?case
  proof (cases "u \<le> ROOT_IDX \<or> \<not> object_cmp m (bh ! (u - 1)) (bh ! (u div 2 - 1))")
    case True
    then show ?thesis
      using "1.prems" by (subst (1 2 3 4) binheap_trickleup.simps) (auto simp: heap_touch_refl Let_def)
  next
    case False
    let ?m = "fst (binheap_swap m bh u (u div 2))"
    let ?bh = "snd (binheap_swap m bh u (u div 2))"
    from False have u: "2 \<le> u" by (simp add: ROOT_IDX_def)
    then have v: "1 \<le> u div 2" "u div 2 \<le> length bh" using "1.prems" by auto
    have sw: "heap_touch (set bh) m ?m" "mset ?bh = mset bh" "length ?bh = length bh"
      using "1.prems" v by (simp_all add: binheap_swap_touch binheap_swap_mset binheap_swap_length)
    have set_eq: "set ?bh = set bh" using sw(2) by (rule mset_eq_setD)
    have ih: "heap_touch (set ?bh) ?m (fst (binheap_trickleup ?m ?bh (u div 2)))
      \<and> mset (fst (snd (binheap_trickleup ?m ?bh (u div 2)))) = mset ?bh
      \<and> 1 \<le> snd (snd (binheap_trickleup ?m ?bh (u div 2)))
      \<and> snd (snd (binheap_trickleup ?m ?bh (u div 2))) \<le> length ?bh"
      using False v sw(3) by (intro "1.IH") simp_all
    have eq: "binheap_trickleup m bh u = binheap_trickleup ?m ?bh (u div 2)"
      using False by (subst binheap_trickleup.simps) (simp add: Let_def)
    show ?thesis
      unfolding eq using ih sw set_eq by (auto intro: heap_touch_trans)
  qed
qed

lemma smaller_child_range:
  "1 \<le> u \<Longrightarrow> 2 * u \<le> length bh \<Longrightarrow>
   u < smaller_child m bh u \<and> smaller_child m bh u \<le> length bh"
  by (auto simp: smaller_child_def Let_def)

lemma binheap_trickledown_ok:
  "1 \<le> u \<Longrightarrow> u \<le> length bh \<Longrightarrow>
   heap_touch (set bh) m (fst (binheap_trickledown m bh u))
   \<and> mset (fst (snd (binheap_trickledown m bh u))) = mset bh"
proof (induction m bh u rule: binheap_trickledown.induct)
  case (1 m bh u)
  let ?v = "smaller_child m bh u"
  show ?case
  proof (cases "u < ROOT_IDX \<or> length bh < 2 * u \<or> object_cmp m (bh ! (u - 1)) (bh ! (?v - 1))")
    case True
    then show ?thesis
      by (subst (1 2) binheap_trickledown.simps) (auto simp: heap_touch_refl Let_def)
  next
    case False
    let ?m = "fst (binheap_swap m bh u ?v)"
    let ?bh = "snd (binheap_swap m bh u ?v)"
    from False have r: "1 \<le> u" "2 * u \<le> length bh" by (simp_all add: ROOT_IDX_def)
    then have v: "1 \<le> ?v" "?v \<le> length bh" using smaller_child_range [of u bh m] by auto
    have sw: "heap_touch (set bh) m ?m" "mset ?bh = mset bh" "length ?bh = length bh"
      using "1.prems" v by (simp_all add: binheap_swap_touch binheap_swap_mset binheap_swap_length)
    have set_eq: "set ?bh = set bh" using sw(2) by (rule mset_eq_setD)
    have ih: "heap_touch (set ?bh) ?m (fst (binheap_trickledown ?m ?bh ?v))
      \<and> mset (fst (snd (binheap_trickledown ?m ?bh ?v))) = mset ?bh"
      using False v sw(3) by (intro "1.IH") simp_all
    have eq: "binheap_trickledown m bh u = binheap_trickledown ?m ?bh ?v"
      using False by (subst binheap_trickledown.simps) (simp add: Let_def)
    show ?thesis
      unfolding eq using ih sw set_eq by (auto intro: heap_touch_trans)
  qed
qed

lemma heap_touch_fields:
  assumes "heap_touch S m m'"
  shows "flags (m' x) = flags (m x)" "refcnt (m' x) = refcnt (m x)"
    "timer_when (m' x) = timer_when (m x)" "last_lru (m' x) = last_lru (m x)"
    "oc_lru (m' x) = oc_lru (m x)" "oc_obj (m' x) = oc_obj (m x)"
    "objhead (m' x) = objhead (m x)"
proof -
  from assms have "m' x = m x \<or> (\<exists>k. m' x = (m x)\<lparr>timer_idx := k\<rparr>)"
    by (auto simp: heap_touch_def)
  then show "flags (m' x) = flags (m x)" "refcnt (m' x) = refcnt (m x)"
    "timer_when (m' x) = timer_when (m x)" "last_lru (m' x) = last_lru (m x)"
    "oc_lru (m' x) = oc_lru (m x)" "oc_obj (m' x) = oc_obj (m x)"
    "objhead (m' x) = objhead (m x)"
    by auto
qed

lemma heap_touch_outside: "heap_touch S m m' \<Longrightarrow> x \<notin> S \<Longrightarrow> m' x = m x"
  by (auto simp: heap_touch_def)

lemma heap_touch_idx:
  "heap_touch S m m' \<Longrightarrow> timer_idx (m x) \<noteq> BINHEAP_NOIDX \<Longrightarrow> timer_idx (m' x) \<noteq> BINHEAP_NOIDX"
proof -
  assume a: "heap_touch S m m'" and b: "timer_idx (m x) \<noteq> BINHEAP_NOIDX"
  from a have "m' x = m x \<or> (\<exists>k\<ge>1. m' x = (m x)\<lparr>timer_idx := k\<rparr>)"
    by (auto simp: heap_touch_def)
  with b show ?thesis by (auto simp: BINHEAP_NOIDX_def)
qed

lemma binheap_insert_ok:
  "mset (snd (binheap_insert m bh p)) = add_mset p (mset bh)
   \<and> timer_idx (fst (binheap_insert m bh p) p) \<noteq> BINHEAP_NOIDX
   \<and> (\<forall>x. \<exists>k. fst (binheap_insert m bh p) x = (m x)\<lparr>timer_idx := k\<rparr>)"
proof -
  let ?u = "length bh + 1"
  let ?m1 = "object_update m p ?u"
  let ?r = "binheap_trickleup ?m1 (bh @ [p]) ?u"
  have t: "heap_touch (set (bh @ [p])) ?m1 (fst ?r) \<and> mset (fst (snd ?r)) = mset (bh @ [p])
     \<and> 1 \<le> snd (snd ?r) \<and> snd (snd ?r) \<le> length (bh @ [p])"
    by (rule binheap_trickleup_ok) simp_all
  have e: "binheap_insert m bh p = (fst ?r, fst (snd ?r))"
    by (simp add: binheap_insert_def Let_def)
  have i: "timer_idx (?m1 p) \<noteq> BINHEAP_NOIDX"
    by (simp add: object_update_def BINHEAP_NOIDX_def)
  have k: "\<exists>k. fst ?r x = (m x)\<lparr>timer_idx := k\<rparr>" for x
  proof -
    from t have "fst ?r x = ?m1 x \<or> (\<exists>k. fst ?r x = (?m1 x)\<lparr>timer_idx := k\<rparr>)"
      by (auto simp: heap_touch_def)
    moreover have "\<exists>j. ?m1 x = (m x)\<lparr>timer_idx := j\<rparr>"
      by (cases "x = p") (auto simp: object_update_def intro: exI [of _ "timer_idx (m x)"])
    ultimately show ?thesis by auto
  qed
  show ?thesis
  proof -
    from t have "heap_touch (set (bh @ [p])) ?m1 (fst ?r)" by simp
    then have "timer_idx (fst ?r p) \<noteq> BINHEAP_NOIDX" using i by (rule heap_touch_idx)
    then show ?thesis unfolding e using t k by simp
  qed
qed

lemma binheap_reorder_ok:
  assumes "binheap_reorder m bh idx = Inr (m', bh')"
  shows "1 \<le> idx \<and> idx \<le> length bh \<and> mset bh' = mset bh \<and> heap_touch (set bh) m m'"
proof -
  from assms have r: "1 \<le> idx" "idx \<le> length bh"
    by (auto simp: binheap_reorder_def ROOT_IDX_def split: if_splits)
  let ?r = "binheap_trickleup m bh idx"
  let ?r' = "binheap_trickledown (fst ?r) (fst (snd ?r)) (snd (snd ?r))"
  have up: "heap_touch (set bh) m (fst ?r) \<and> mset (fst (snd ?r)) = mset bh
     \<and> 1 \<le> snd (snd ?r) \<and> snd (snd ?r) \<le> length bh"
    using r by (rule binheap_trickleup_ok)
  then have len: "length (fst (snd ?r)) = length bh" and st: "set (fst (snd ?r)) = set bh"
    by (auto dest: mset_eq_length mset_eq_setD)
  have down: "heap_touch (set (fst (snd ?r))) (fst ?r) (fst ?r')
     \<and> mset (fst (snd ?r')) = mset (fst (snd ?r))"
    using up len by (intro binheap_trickledown_ok) simp_all
  from assms r have e: "m' = fst ?r'" "bh' = fst (snd ?r')"
    by (auto simp: binheap_reorder_def ROOT_IDX_def Let_def split: if_splits)
  show ?thesis
    using r up down st unfolding e by (auto intro: heap_touch_trans)
qed

lemma mset_move_last:
  assumes "i < length xs"
  shows "mset (xs[i := a]) = add_mset a (mset xs) - {#xs ! i#}"
  using assms by (simp add: mset_update)

lemma mset_butlast_last:
  assumes "bh \<noteq> []"
  shows "mset bh = add_mset (last bh) (mset (butlast bh))"
proof -
  have "butlast bh @ [last bh] = bh" using assms by simp
  then have "mset bh = mset (butlast bh @ [last bh])" by (rule arg_cong [symmetric, of _ _ mset])
  then show ?thesis by simp
qed

lemma binheap_delete_ok:
  assumes "binheap_delete m bh idx = Inr (m', bh')"
  shows "1 \<le> idx \<and> idx \<le> length bh \<and> mset bh' = mset bh - {#bh ! (idx - 1)#}
     \<and> heap_touch (set bh') (object_update m (bh ! (idx - 1)) BINHEAP_NOIDX) m'"
proof -
  from assms have r: "1 \<le> idx" "idx \<le> length bh"
    by (auto simp: binheap_delete_def ROOT_IDX_def split: if_splits)
  then have ne: "bh \<noteq> []" by auto
  let ?m1 = "object_update m (bh ! (idx - 1)) BINHEAP_NOIDX"
  show ?thesis
  proof (cases "idx = length bh")
    case True
    with assms r ne have e: "m' = ?m1" "bh' = butlast bh"
      by (auto simp: binheap_delete_def ROOT_IDX_def Let_def split: if_splits)
    have "bh ! (idx - 1) = last bh" using True ne by (simp add: last_conv_nth)
    moreover have "mset (butlast bh) = mset bh - {#last bh#}"
      by (simp add: mset_butlast_last [OF ne])
    ultimately show ?thesis using r e by (simp add: heap_touch_refl)
  next
    case False
    let ?q = "last bh"
    let ?bh1 = "(butlast bh)[idx - 1 := ?q]"
    let ?m2 = "object_update ?m1 ?q idx"
    let ?r = "binheap_trickleup ?m2 ?bh1 idx"
    let ?r' = "binheap_trickledown (fst ?r) (fst (snd ?r)) (snd (snd ?r))"
    from False r have lt: "idx - 1 < length (butlast bh)" "idx \<le> length ?bh1" by auto
    have bl: "mset bh = add_mset ?q (mset (butlast bh))"
      by (rule mset_butlast_last [OF ne])
    have nth: "butlast bh ! (idx - 1) = bh ! (idx - 1)"
      using lt by (simp add: nth_butlast)
    have mem: "bh ! (idx - 1) \<in># mset (butlast bh)"
      using lt(1) nth by (metis nth_mem_mset)
    have "mset ?bh1 = add_mset ?q (mset (butlast bh) - {#bh ! (idx - 1)#})"
      using lt(1) nth by (simp add: mset_update)
    also have "\<dots> = add_mset ?q (mset (butlast bh)) - {#bh ! (idx - 1)#}"
      using mem by simp
    finally have ms1: "mset ?bh1 = mset bh - {#bh ! (idx - 1)#}"
      by (simp add: bl)
    have qin: "?q \<in> set ?bh1"
      using lt(1) by (simp add: set_update_memI)
    have t2: "heap_touch (set ?bh1) ?m1 ?m2"
      using qin r(1) by (rule heap_touch_update)
    have up: "heap_touch (set ?bh1) ?m2 (fst ?r) \<and> mset (fst (snd ?r)) = mset ?bh1
       \<and> 1 \<le> snd (snd ?r) \<and> snd (snd ?r) \<le> length ?bh1"
      using r(1) lt(2) by (rule binheap_trickleup_ok)
    then have len: "length (fst (snd ?r)) = length ?bh1" and st: "set (fst (snd ?r)) = set ?bh1"
      by (auto dest: mset_eq_length mset_eq_setD)
    have down: "heap_touch (set (fst (snd ?r))) (fst ?r) (fst ?r')
       \<and> mset (fst (snd ?r')) = mset (fst (snd ?r))"
      using up len by (intro binheap_trickledown_ok) simp_all
    from assms r False ne have e: "m' = fst ?r'" "bh' = fst (snd ?r')"
      by (auto simp: binheap_delete_def ROOT_IDX_def Let_def split: if_splits)
    have st': "set bh' = set ?bh1"
      using down up unfolding e by (metis mset_eq_setD)
    have "heap_touch (set ?bh1) ?m1 m'"
      using t2 up down st unfolding e by (auto intro: heap_touch_trans)
    then show ?thesis
      using r ms1 down up st' unfolding e by simp
  qed
qed

lemma heap_touch_idx_only:
  "heap_touch S m m' \<Longrightarrow> \<exists>k. m' x = (m x)\<lparr>timer_idx := k\<rparr>"
proof -
  assume "heap_touch S m m'"
  then have "m' x = m x \<or> (\<exists>k. m' x = (m x)\<lparr>timer_idx := k\<rparr>)"
    by (auto simp: heap_touch_def)
  then show ?thesis
    by (auto intro: exI [of _ "timer_idx (m x)"])
qed

lemma binheap_delete_range:
  "1 \<le> idx \<Longrightarrow> idx \<le> length bh \<Longrightarrow> \<exists>m' bh'. binheap_delete m bh idx = Inr (m', bh')"
  by (auto simp: binheap_delete_def ROOT_IDX_def Let_def)

lemma binheap_delete_fail:
  "\<not> (1 \<le> idx \<and> idx \<le> length bh) \<Longrightarrow> binheap_delete m bh idx = Inl AssertFail"
proof -
  assume "\<not> (1 \<le> idx \<and> idx \<le> length bh)"
  then have "idx < ROOT_IDX \<or> length bh < idx" by (auto simp: ROOT_IDX_def)
  then show ?thesis unfolding binheap_delete_def by (rule if_P)
qed

lemma binheap_delete_idx_only:
  assumes "binheap_delete m bh idx = Inr (m', bh')"
  shows "\<exists>k. m' x = (m x)\<lparr>timer_idx := k\<rparr>"
proof -
  let ?m1 = "object_update m (bh ! (idx - 1)) BINHEAP_NOIDX"
  from binheap_delete_ok [OF assms] have "heap_touch (set bh') ?m1 m'" by simp
  then obtain k where "m' x = (?m1 x)\<lparr>timer_idx := k\<rparr>"
    using heap_touch_idx_only by blast
  then show ?thesis
    by (cases "x = bh ! (idx - 1)") (auto simp: object_update_def)
qed

lemma binheap_delete_self:
  assumes d: "distinct bh" and r: "1 \<le> idx" "idx \<le> length bh" and e: "bh ! (idx - 1) = oc"
    and del: "binheap_delete m bh idx = Inr (m', bh')"
  shows "timer_idx (m' oc) = BINHEAP_NOIDX \<and> mset bh' = mset bh - {#oc#} \<and> oc \<notin> set bh'"
proof -
  let ?m1 = "object_update m (bh ! (idx - 1)) BINHEAP_NOIDX"
  from binheap_delete_ok [OF del] have ms: "mset bh' = mset bh - {#oc#}"
    and t: "heap_touch (set bh') ?m1 m'" using e by simp_all
  have "count (mset bh) oc \<le> 1" using d by (simp add: distinct_count_atmost_1)
  then have "count (mset bh') oc = 0" using ms by simp
  then have nin: "oc \<notin> set bh'" by (simp add: count_eq_zero_iff)
  from t nin have "m' oc = ?m1 oc" by (rule heap_touch_outside)
  then show ?thesis using ms nin e by (simp add: object_update_def)
qed

lemma binheap_delete_assert:
  assumes del: "binheap_delete m bh idx = Inr (m', bh')"
    and a: "timer_idx (m oc) \<noteq> BINHEAP_NOIDX" and b: "timer_idx (m' oc) = BINHEAP_NOIDX"
  shows "bh ! (idx - 1) = oc"
proof (rule ccontr)
  assume n: "bh ! (idx - 1) \<noteq> oc"
  let ?m1 = "object_update m (bh ! (idx - 1)) BINHEAP_NOIDX"
  from binheap_delete_ok [OF del] have t: "heap_touch (set bh') ?m1 m'" by simp
  have "timer_idx (?m1 oc) \<noteq> BINHEAP_NOIDX" using n a by (simp add: object_update_def)
  with t have "timer_idx (m' oc) \<noteq> BINHEAP_NOIDX" by (rule heap_touch_idx)
  with b show False by simp
qed

subsection \<open>The firing path of the expiry\<close>

lemma exp_expire_fire_unfold:
  assumes root: "binheap_root (heap st) = Some oc" and due: "timer_when (ocs st oc) \<le> now"
    and nb: "OC_F_BUSY \<notin> flags (ocs st oc)" and on: "OC_F_OFFLRU \<notin> flags (ocs st oc)"
    and free: "\<not> lru_mtx (lrus st (oc_getlru st oc))"
  defines "st4 \<equiv> lru_upd (oc_upd (oc_upd (st\<lparr>n_expired := n_expired st + 1\<rparr>) oc
                        (\<lambda>c. c\<lparr>flags := flags c \<union> {OC_F_DYING}\<rparr>)) oc
                        (\<lambda>c. c\<lparr>flags := flags c \<union> {OC_F_OFFLRU}\<rparr>))
                     (oc_getlru st oc) (\<lambda>r. r\<lparr>lru_head := remove1 oc (lru_head r)\<rparr>)"
  shows "exp_expire st now =
     (if timer_idx (ocs st4 oc) = BINHEAP_NOIDX then Inl AssertFail
      else (case binheap_delete (ocs st4) (heap st4) (timer_idx (ocs st4 oc)) of
              Inl e \<Rightarrow> Inl e
            | Inr (m, bh) \<Rightarrow>
                if timer_idx (m oc) \<noteq> BINHEAP_NOIDX then Inl AssertFail
                else Inr (HSH_DerefObjCore (st4\<lparr>ocs := m, heap := bh\<rparr>) oc, 0)))"
  using root due nb on free
  by (auto simp: exp_expire_def Let_def st4_def oc_getlru_def split: sum.splits prod.splits)

lemma exp_expire_fire_post:
  assumes root: "binheap_root (heap st) = Some oc" and due: "timer_when (ocs st oc) \<le> now"
    and nb: "OC_F_BUSY \<notin> flags (ocs st oc)" and on: "OC_F_OFFLRU \<notin> flags (ocs st oc)"
    and ret: "exp_expire st now = Inr (st', r)"
  shows "r = 0 \<and> n_expired st' = n_expired st + 1
     \<and> flags (ocs st' oc) = flags (ocs st oc) \<union> {OC_F_DYING, OC_F_OFFLRU}
     \<and> lru_head (lrus st' (oc_getlru st oc)) = remove1 oc (lru_head (lrus st (oc_getlru st oc)))
     \<and> heap st ! (timer_idx (ocs st oc) - 1) = oc
     \<and> mset (heap st') = mset (heap st) - {#oc#}
     \<and> timer_idx (ocs st' oc) = BINHEAP_NOIDX
     \<and> refcnt (ocs st' oc) = refcnt (ocs st oc) - 1
     \<and> (\<forall>x. x \<noteq> oc \<longrightarrow> refcnt (ocs st' x) = refcnt (ocs st x) \<and> flags (ocs st' x) = flags (ocs st x))
     \<and> inbox st' = inbox st
     \<and> (\<forall>l'. l' \<noteq> oc_getlru st oc \<longrightarrow> lrus st' l' = lrus st l')
     \<and> (\<forall>x. oc_lru (ocs st' x) = oc_lru (ocs st x))"
proof -
  define st4 where "st4 = lru_upd (oc_upd (oc_upd (st\<lparr>n_expired := n_expired st + 1\<rparr>) oc
                        (\<lambda>c. c\<lparr>flags := flags c \<union> {OC_F_DYING}\<rparr>)) oc
                        (\<lambda>c. c\<lparr>flags := flags c \<union> {OC_F_OFFLRU}\<rparr>))
                     (oc_getlru st oc) (\<lambda>r. r\<lparr>lru_head := remove1 oc (lru_head r)\<rparr>)"
  have free: "\<not> lru_mtx (lrus st (oc_getlru st oc))"
    using root due nb on ret by (auto simp: exp_expire_def Let_def oc_getlru_def split: if_splits)
  note e = exp_expire_fire_unfold [OF root due nb on free, folded st4_def]
  from ret e have i: "timer_idx (ocs st4 oc) \<noteq> BINHEAP_NOIDX"
    by (auto split: if_splits)
  from ret e i obtain m bh where
    del: "binheap_delete (ocs st4) (heap st4) (timer_idx (ocs st4 oc)) = Inr (m, bh)"
    by (auto split: sum.splits)
  from ret e i del have i': "timer_idx (m oc) = BINHEAP_NOIDX"
    and st': "st' = HSH_DerefObjCore (st4\<lparr>ocs := m, heap := bh\<rparr>) oc" and r: "r = 0"
    by (auto split: if_splits)
  have at: "heap st4 ! (timer_idx (ocs st4 oc) - 1) = oc"
    using del i i' by (rule binheap_delete_assert)
  from binheap_delete_ok [OF del] at have ms: "mset bh = mset (heap st4) - {#oc#}" by simp
  have io: "\<exists>k. m x = (ocs st4 x)\<lparr>timer_idx := k\<rparr>" for x
    using del by (rule binheap_delete_idx_only)
  have f: "flags (m x) = flags (ocs st4 x)" "refcnt (m x) = refcnt (ocs st4 x)"
    "oc_lru (m x) = oc_lru (ocs st4 x)" for x
    using io [of x] by auto
  have s4: "heap st4 = heap st" "timer_idx (ocs st4 oc) = timer_idx (ocs st oc)"
    "inbox st4 = inbox st" "n_expired st4 = n_expired st + 1"
    "flags (ocs st4 oc) = flags (ocs st oc) \<union> {OC_F_DYING, OC_F_OFFLRU}"
    "refcnt (ocs st4 x) = refcnt (ocs st x)" "oc_lru (ocs st4 x) = oc_lru (ocs st x)"
    "x \<noteq> oc \<Longrightarrow> flags (ocs st4 x) = flags (ocs st x)"
    "l' \<noteq> oc_getlru st oc \<Longrightarrow> lrus st4 l' = lrus st l'"
    "lru_head (lrus st4 (oc_getlru st oc)) = remove1 oc (lru_head (lrus st (oc_getlru st oc)))" for x l'
    by (auto simp: st4_def)
  show ?thesis
    using r i' ms at f s4 unfolding st' HSH_DerefObjCore_def by simp
qed

lemma exp_expire_fire:
  assumes root: "binheap_root (heap st) = Some oc" and due: "timer_when (ocs st oc) \<le> now"
    and nb: "OC_F_BUSY \<notin> flags (ocs st oc)" and on: "OC_F_OFFLRU \<notin> flags (ocs st oc)"
    and free: "\<not> lru_mtx (lrus st (oc_getlru st oc))"
    and idx: "timer_idx (ocs st oc) = ROOT_IDX" and d: "distinct (heap st)"
  shows "\<exists>st'. exp_expire st now = Inr (st', 0)"
proof -
  define st4 where "st4 = lru_upd (oc_upd (oc_upd (st\<lparr>n_expired := n_expired st + 1\<rparr>) oc
                        (\<lambda>c. c\<lparr>flags := flags c \<union> {OC_F_DYING}\<rparr>)) oc
                        (\<lambda>c. c\<lparr>flags := flags c \<union> {OC_F_OFFLRU}\<rparr>))
                     (oc_getlru st oc) (\<lambda>r. r\<lparr>lru_head := remove1 oc (lru_head r)\<rparr>)"
  note e = exp_expire_fire_unfold [OF root due nb on free, folded st4_def]
  have s4: "heap st4 = heap st" "timer_idx (ocs st4 oc) = 1"
    using idx by (auto simp: st4_def ROOT_IDX_def)
  from root obtain rest where h: "heap st = oc # rest"
    by (auto simp: binheap_root_def split: list.splits)
  have rng: "(1::nat) \<le> 1" "1 \<le> length (heap st4)" using h s4 by simp_all
  from binheap_delete_range [OF rng] obtain m bh where
    del: "binheap_delete (ocs st4) (heap st4) 1 = Inr (m, bh)" by blast
  have "timer_idx (m oc) = BINHEAP_NOIDX \<and> mset bh = mset (heap st4) - {#oc#} \<and> oc \<notin> set bh"
    using _ rng _ del by (rule binheap_delete_self) (use d h s4 in simp_all)
  then show ?thesis
    unfolding e using del s4 by (simp add: BINHEAP_NOIDX_def)
qed

subsection \<open>The example states\<close>

lemma ex_resident_simps:
  "heap ex_resident = [0]" "timer_when (ocs ex_resident 0) = 110" "flags (ocs ex_resident 0) = {}"
  "timer_idx (ocs ex_resident 0) = 1" "oc_getlru ex_resident 0 = 0"
  "lru_mtx (lrus ex_resident 0) = False" "n_expired ex_resident = 0"
  "refcnt (ocs ex_resident 0) = 2" "lru_head (lrus ex_resident 0) = [0]" "inbox ex_resident = []"
  by (simp_all add: ex_resident_def cache_init_def oc_init_def lru_init_def oc_getlru_def)


lemma exp_expire_yield:
  assumes "binheap_root (heap st) = Some oc" "timer_when (ocs st oc) \<le> now"
    "OC_F_BUSY \<notin> flags (ocs st oc)" "OC_F_OFFLRU \<in> flags (ocs st oc)"
    "\<not> lru_mtx (lrus st (oc_getlru st oc))"
  shows "exp_expire st now =
     Inr (oc_upd (st\<lparr>n_expired := n_expired st + 1\<rparr>) oc (\<lambda>c. c\<lparr>flags := flags c \<union> {OC_F_DYING}\<rparr>),
          now + 0.001)"
  using assms by (simp add: exp_expire_def Let_def oc_getlru_def)

lemma ex_busy_simps:
  "heap ex_busy = [0]" "timer_when (ocs ex_busy 0) = 110" "flags (ocs ex_busy 0) = {OC_F_BUSY}"
  by (simp_all add: ex_busy_def ex_resident_simps)

lemma ex_claimed_simps:
  "heap ex_claimed = [0]" "timer_when (ocs ex_claimed 0) = 110"
  "flags (ocs ex_claimed 0) = {OC_F_OFFLRU, OC_F_MOVE}" "oc_getlru ex_claimed 0 = 0"
  "lru_mtx (lrus ex_claimed 0) = False" "n_expired ex_claimed = 0" "inbox ex_claimed = [0]"
  using ex_resident_simps by (simp_all add: ex_claimed_def oc_getlru_def)

subsection \<open>Posting, draining and the scan of the LRU list\<close>

lemma mail_all_tail:
  "\<forall>x\<in>set ms. OC_F_OFFLRU \<in> flags (ocs st x) \<and> OC_F_DYING \<notin> flags (ocs st x) \<Longrightarrow>
   mail_all st ms = Inr (st\<lparr>inbox := inbox st @ ms\<rparr>)"
proof (induction ms arbitrary: st)
  case Nil
  then show ?case by simp
next
  case (Cons m ms)
  let ?st1 = "st\<lparr>inbox := inbox st @ [m]\<rparr>"
  have a: "exp_mail_it st m = Inr ?st1"
    using Cons.prems by (simp add: exp_mail_it_def)
  have "mail_all ?st1 ms = Inr (?st1\<lparr>inbox := inbox ?st1 @ ms\<rparr>)"
    using Cons.prems by (intro Cons.IH) simp
  with a show ?case by simp
qed

lemma exp_drain_take: "exp_drain n st = take n (inbox st)"
proof (induction n arbitrary: st)
  case 0
  then show ?case by simp
next
  case (Suc n)
  show ?case
  proof (cases "inbox st")
    case Nil
    then show ?thesis by (simp add: exp_dequeue_def)
  next
    case (Cons x xs)
    then show ?thesis by (simp add: exp_dequeue_def Suc.IH)
  qed
qed



lemma ex_resident_obj:
  "objcore (objs ex_resident 0) = Some 0" "exp_when (objs ex_resident 0) = 110"
  "lru_dontmove (lrus ex_resident 0) = False" "oh_mtx ex_resident h = False"
  by (simp_all add: ex_resident_def cache_init_def obj_init_def exp_when_def lru_init_def)

lemma ex_killed_simps:
  "objcore (objs ex_killed 0) = Some 0" "exp_when (objs ex_killed 0) = - 1"
  "timer_when (ocs ex_killed 0) = 110" "flags (ocs ex_killed 0) = {}" "oc_getlru ex_killed 0 = 0"
  "lru_mtx (lrus ex_killed 0) = False" "lru_head (lrus ex_killed 0) = [0]" "inbox ex_killed = []"
  using ex_resident_simps
  by (simp_all add: ex_killed_def obj_init_def exp_when_def EXP_Clr_def oc_getlru_def)

lemma ex_lru4_simps:
  "lru_head (lrus ex_lru4 0) = [0, 1, 2, 3]" "lru_mtx (lrus ex_lru4 0) = False"
  "lru_dontmove (lrus ex_lru4 0) = False"
  "flags (ocs ex_lru4 i) = {}" "oc_getlru ex_lru4 i = 0" "oh_mtx ex_lru4 h = False"
  "refcnt (ocs ex_lru4 i) = (if i = 0 then 2 else 1)" "inbox ex_lru4 = []"
  "n_lru_nuked ex_lru4 = 0" "n_lru_moved ex_lru4 = 0"
  by (simp_all add: ex_lru4_def cache_init_def oc_init_def lru_init_def oc_getlru_def)

lemma ex_mail_simps:
  "flags (ocs ex_mail i) = (if i = 2 then {OC_F_OFFLRU, OC_F_DYING} else {OC_F_OFFLRU, OC_F_INSERT})"
  "inbox ex_mail = []"
  by (simp_all add: ex_mail_def cache_init_def oc_init_def)

subsection \<open>The paths of the inbox handler\<close>

lemma inbox_mark_simps:
  "ocs (inbox_mark st oc now) x =
     (if x = oc then (ocs st oc)\<lparr>flags := flags (ocs st oc) - {OC_F_INSERT, OC_F_MOVE, OC_F_OFFLRU},
                                last_lru := now\<rparr>
      else ocs st x)"
  "lrus (inbox_mark st oc now) = lrus st" "heap (inbox_mark st oc now) = heap st"
  "inbox (inbox_mark st oc now) = inbox st" "objs (inbox_mark st oc now) = objs st"
  "n_expired (inbox_mark st oc now) = n_expired st"
  by (simp_all add: inbox_mark_def)

lemma exp_inbox_dying_unfold:
  assumes "OC_F_OFFLRU \<in> flags (ocs st oc)" "OC_F_DYING \<in> flags (ocs st oc)"
    "\<not> lru_mtx (lrus st (oc_getlru st oc))"
  shows "exp_inbox st oc now =
     (if timer_idx (ocs st oc) = BINHEAP_NOIDX then Inl AssertFail
      else (case binheap_delete (ocs (inbox_mark st oc now)) (heap st) (timer_idx (ocs st oc)) of
              Inl e \<Rightarrow> Inl e
            | Inr (m, bh) \<Rightarrow>
                if timer_idx (m oc) \<noteq> BINHEAP_NOIDX then Inl AssertFail
                else Inr (HSH_DerefObjCore ((inbox_mark st oc now)\<lparr>ocs := m, heap := bh\<rparr>) oc)))"
  using assms
  by (auto simp: exp_inbox_def Let_def inbox_mark_def oc_getlru_def split: sum.splits prod.splits)

lemma exp_inbox_dying_post:
  assumes off: "OC_F_OFFLRU \<in> flags (ocs st oc)" and dy: "OC_F_DYING \<in> flags (ocs st oc)"
    and ret: "exp_inbox st oc now = Inr st'"
  shows "flags (ocs st' oc) = flags (ocs st oc) - {OC_F_INSERT, OC_F_MOVE, OC_F_OFFLRU}
     \<and> last_lru (ocs st' oc) = now \<and> lrus st' = lrus st \<and> inbox st' = inbox st
     \<and> timer_idx (ocs st oc) \<noteq> BINHEAP_NOIDX
     \<and> heap st ! (timer_idx (ocs st oc) - 1) = oc
     \<and> 1 \<le> timer_idx (ocs st oc) \<and> timer_idx (ocs st oc) \<le> length (heap st)
     \<and> mset (heap st') = mset (heap st) - {#oc#}
     \<and> timer_idx (ocs st' oc) = BINHEAP_NOIDX
     \<and> timer_when (ocs st' oc) = timer_when (ocs st oc)
     \<and> refcnt (ocs st' oc) = refcnt (ocs st oc) - 1
     \<and> (\<forall>x. x \<noteq> oc \<longrightarrow> refcnt (ocs st' x) = refcnt (ocs st x) \<and> flags (ocs st' x) = flags (ocs st x))
     \<and> (\<forall>x. oc_lru (ocs st' x) = oc_lru (ocs st x))"
proof -
  let ?s = "inbox_mark st oc now"
  have free: "\<not> lru_mtx (lrus st (oc_getlru st oc))"
    using ret by (auto simp: exp_inbox_def Let_def split: if_splits)
  note e = exp_inbox_dying_unfold [OF off dy free, of now]
  from ret e have i: "timer_idx (ocs st oc) \<noteq> BINHEAP_NOIDX"
    by (auto split: if_splits)
  from ret e i obtain m bh where
    del: "binheap_delete (ocs ?s) (heap st) (timer_idx (ocs st oc)) = Inr (m, bh)"
    by (auto split: sum.splits)
  from ret e i del have i': "timer_idx (m oc) = BINHEAP_NOIDX"
    and st': "st' = HSH_DerefObjCore (?s\<lparr>ocs := m, heap := bh\<rparr>) oc"
    by (auto split: if_splits)
  have i2: "timer_idx (ocs ?s oc) \<noteq> BINHEAP_NOIDX" using i by (simp add: inbox_mark_simps)
  have at: "heap st ! (timer_idx (ocs st oc) - 1) = oc"
    using del i2 i' by (rule binheap_delete_assert)
  from binheap_delete_ok [OF del] at have ms: "mset bh = mset (heap st) - {#oc#}"
    and rng: "1 \<le> timer_idx (ocs st oc)" "timer_idx (ocs st oc) \<le> length (heap st)" by simp_all
  have io: "\<exists>k. m x = (ocs ?s x)\<lparr>timer_idx := k\<rparr>" for x
    using del by (rule binheap_delete_idx_only)
  have f: "flags (m x) = flags (ocs ?s x)" "refcnt (m x) = refcnt (ocs ?s x)"
    "timer_when (m x) = timer_when (ocs ?s x)" "last_lru (m x) = last_lru (ocs ?s x)"
    "oc_lru (m x) = oc_lru (ocs ?s x)" for x
    using io [of x] by auto
  show ?thesis
    using i i' ms at rng f unfolding st' HSH_DerefObjCore_def by (simp add: inbox_mark_simps)
qed

lemma exp_inbox_dying_ok:
  assumes off: "OC_F_OFFLRU \<in> flags (ocs st oc)" and dy: "OC_F_DYING \<in> flags (ocs st oc)"
    and free: "\<not> lru_mtx (lrus st (oc_getlru st oc))" and d: "distinct (heap st)"
    and rng: "1 \<le> timer_idx (ocs st oc)" "timer_idx (ocs st oc) \<le> length (heap st)"
    and at: "heap st ! (timer_idx (ocs st oc) - 1) = oc"
  shows "\<exists>st'. exp_inbox st oc now = Inr st'"
proof -
  let ?s = "inbox_mark st oc now"
  note e = exp_inbox_dying_unfold [OF off dy free, of now]
  from binheap_delete_range [OF rng] obtain m bh where
    del: "binheap_delete (ocs ?s) (heap st) (timer_idx (ocs st oc)) = Inr (m, bh)" by blast
  have "timer_idx (m oc) = BINHEAP_NOIDX \<and> mset bh = mset (heap st) - {#oc#} \<and> oc \<notin> set bh"
    using d rng at del by (rule binheap_delete_self)
  then show ?thesis
    unfolding e using del rng by (simp add: BINHEAP_NOIDX_def)
qed

lemma exp_inbox_dying_fail:
  assumes off: "OC_F_OFFLRU \<in> flags (ocs st oc)" and dy: "OC_F_DYING \<in> flags (ocs st oc)"
    and free: "\<not> lru_mtx (lrus st (oc_getlru st oc))"
    and n: "\<not> (1 \<le> timer_idx (ocs st oc) \<and> timer_idx (ocs st oc) \<le> length (heap st)
              \<and> heap st ! (timer_idx (ocs st oc) - 1) = oc)"
  shows "exp_inbox st oc now = Inl AssertFail"
proof (cases "exp_inbox st oc now")
  case (Inl e)
  then have "e = AssertFail"
    unfolding exp_inbox_dying_unfold [OF off dy free, of now]
    by (auto simp: binheap_delete_def Let_def split: if_splits sum.splits prod.splits)
  with Inl show ?thesis by simp
next
  case (Inr st')
  with exp_inbox_dying_post [OF off dy Inr] n show ?thesis by simp
qed

lemma inbox_link_simps:
  "ocs (inbox_link st oc now) x =
     (if x = oc then (ocs st oc)\<lparr>flags := flags (ocs st oc) - {OC_F_INSERT, OC_F_MOVE, OC_F_OFFLRU},
                                last_lru := now,
                                timer_when := (if OC_F_MOVE \<in> flags (ocs st oc)
                                               then exp_when (oc_getobj st oc)
                                               else timer_when (ocs st oc))\<rparr>
      else ocs st x)"
  "lrus (inbox_link st oc now) =
     (lrus st)(oc_getlru st oc :=
        (lrus st (oc_getlru st oc))\<lparr>lru_head := lru_head (lrus st (oc_getlru st oc)) @ [oc]\<rparr>)"
  "heap (inbox_link st oc now) = heap st"
  "inbox (inbox_link st oc now) = inbox st" "objs (inbox_link st oc now) = objs st"
  "n_expired (inbox_link st oc now) = n_expired st"
  by (simp_all add: inbox_link_def Let_def inbox_mark_simps fun_eq_iff)

lemma exp_inbox_live_unfold:
  assumes "OC_F_OFFLRU \<in> flags (ocs st oc)" "OC_F_DYING \<notin> flags (ocs st oc)"
    "\<not> lru_mtx (lrus st (oc_getlru st oc))"
  shows "exp_inbox st oc now =
     (if OC_F_INSERT \<in> flags (ocs st oc)
      then if timer_idx (ocs st oc) \<noteq> BINHEAP_NOIDX then Inl AssertFail
           else (case binheap_insert (ocs (inbox_link st oc now)) (heap st) oc of
                   (m, bh) \<Rightarrow>
                     if timer_idx (m oc) = BINHEAP_NOIDX then Inl AssertFail
                     else Inr ((inbox_link st oc now)\<lparr>ocs := m, heap := bh\<rparr>))
      else if OC_F_MOVE \<in> flags (ocs st oc)
      then if timer_idx (ocs st oc) = BINHEAP_NOIDX then Inl AssertFail
           else (case binheap_reorder (ocs (inbox_link st oc now)) (heap st) (timer_idx (ocs st oc)) of
                   Inl e \<Rightarrow> Inl e
                 | Inr (m, bh) \<Rightarrow>
                     if timer_idx (m oc) = BINHEAP_NOIDX then Inl AssertFail
                     else Inr ((inbox_link st oc now)\<lparr>ocs := m, heap := bh\<rparr>))
      else Inl AssertFail)"
  using assms
  by (auto simp: exp_inbox_def Let_def inbox_link_def inbox_mark_def oc_getlru_def oc_getobj_def
      split: sum.splits prod.splits)

lemma binheap_reorder_idx_only:
  assumes "binheap_reorder m bh idx = Inr (m', bh')"
  shows "\<exists>k. m' x = (m x)\<lparr>timer_idx := k\<rparr>"
  using binheap_reorder_ok [OF assms] heap_touch_idx_only by blast

lemma binheap_reorder_range:
  "1 \<le> idx \<Longrightarrow> idx \<le> length bh \<Longrightarrow> \<exists>m' bh'. binheap_reorder m bh idx = Inr (m', bh')"
  by (auto simp: binheap_reorder_def ROOT_IDX_def Let_def)

lemma exp_inbox_live_post:
  assumes off: "OC_F_OFFLRU \<in> flags (ocs st oc)" and dy: "OC_F_DYING \<notin> flags (ocs st oc)"
    and ret: "exp_inbox st oc now = Inr st'"
  shows "flags (ocs st' oc) = flags (ocs st oc) - {OC_F_INSERT, OC_F_MOVE, OC_F_OFFLRU}
     \<and> last_lru (ocs st' oc) = now
     \<and> lrus st' = (lrus st)(oc_getlru st oc :=
          (lrus st (oc_getlru st oc))\<lparr>lru_head := lru_head (lrus st (oc_getlru st oc)) @ [oc]\<rparr>)
     \<and> inbox st' = inbox st
     \<and> timer_when (ocs st' oc) = (if OC_F_MOVE \<in> flags (ocs st oc) then exp_when (oc_getobj st oc)
                                  else timer_when (ocs st oc))
     \<and> (if OC_F_INSERT \<in> flags (ocs st oc)
         then timer_idx (ocs st oc) = BINHEAP_NOIDX \<and> mset (heap st') = add_mset oc (mset (heap st))
         else OC_F_MOVE \<in> flags (ocs st oc)
              \<and> 1 \<le> timer_idx (ocs st oc) \<and> timer_idx (ocs st oc) \<le> length (heap st)
              \<and> mset (heap st') = mset (heap st))
     \<and> timer_idx (ocs st' oc) \<noteq> BINHEAP_NOIDX
     \<and> (\<forall>x. refcnt (ocs st' x) = refcnt (ocs st x))
     \<and> (\<forall>x. x \<noteq> oc \<longrightarrow> flags (ocs st' x) = flags (ocs st x))
     \<and> (\<forall>x. oc_lru (ocs st' x) = oc_lru (ocs st x))"
proof -
  let ?s = "inbox_link st oc now"
  have free: "\<not> lru_mtx (lrus st (oc_getlru st oc))"
    using ret by (auto simp: exp_inbox_def Let_def split: if_splits)
  note e = exp_inbox_live_unfold [OF off dy free, of now]
  show ?thesis
  proof (cases "OC_F_INSERT \<in> flags (ocs st oc)")
    case True
    from ret e True have i: "timer_idx (ocs st oc) = BINHEAP_NOIDX"
      by (auto split: if_splits)
    obtain m bh where ins: "binheap_insert (ocs ?s) (heap st) oc = (m, bh)"
      by (cases "binheap_insert (ocs ?s) (heap st) oc") auto
    from ret e True i ins have i': "timer_idx (m oc) \<noteq> BINHEAP_NOIDX"
      and st': "st' = ?s\<lparr>ocs := m, heap := bh\<rparr>"
      by (auto split: if_splits)
    have ok: "mset bh = add_mset oc (mset (heap st))" "\<And>x. \<exists>k. m x = (ocs ?s x)\<lparr>timer_idx := k\<rparr>"
      using binheap_insert_ok [of "ocs ?s" "heap st" oc] ins by simp_all
    have f: "flags (m x) = flags (ocs ?s x)" "refcnt (m x) = refcnt (ocs ?s x)"
      "timer_when (m x) = timer_when (ocs ?s x)" "last_lru (m x) = last_lru (ocs ?s x)"
      "oc_lru (m x) = oc_lru (ocs ?s x)" for x
      using ok(2) [of x] by auto
    show ?thesis
      using True i i' ok(1) f unfolding st' by (simp add: inbox_link_simps)
  next
    case False
    from ret e False have mv: "OC_F_MOVE \<in> flags (ocs st oc)"
      and i: "timer_idx (ocs st oc) \<noteq> BINHEAP_NOIDX"
      by (auto split: if_splits)
    from ret e False mv i obtain m bh where
      re: "binheap_reorder (ocs ?s) (heap st) (timer_idx (ocs st oc)) = Inr (m, bh)"
      by (auto split: sum.splits)
    from ret e False mv i re have i': "timer_idx (m oc) \<noteq> BINHEAP_NOIDX"
      and st': "st' = ?s\<lparr>ocs := m, heap := bh\<rparr>"
      by (auto split: if_splits)
    from binheap_reorder_ok [OF re] have ok: "1 \<le> timer_idx (ocs st oc)"
      "timer_idx (ocs st oc) \<le> length (heap st)" "mset bh = mset (heap st)" by simp_all
    have io: "\<exists>k. m x = (ocs ?s x)\<lparr>timer_idx := k\<rparr>" for x
      using re by (rule binheap_reorder_idx_only)
    have f: "flags (m x) = flags (ocs ?s x)" "refcnt (m x) = refcnt (ocs ?s x)"
      "timer_when (m x) = timer_when (ocs ?s x)" "last_lru (m x) = last_lru (ocs ?s x)"
      "oc_lru (m x) = oc_lru (ocs ?s x)" for x
      using io [of x] by auto
    show ?thesis
      using False mv i i' ok f unfolding st' by (simp add: inbox_link_simps)
  qed
qed

lemma exp_inbox_insert_ok:
  assumes off: "OC_F_OFFLRU \<in> flags (ocs st oc)" and dy: "OC_F_DYING \<notin> flags (ocs st oc)"
    and free: "\<not> lru_mtx (lrus st (oc_getlru st oc))"
    and ins: "OC_F_INSERT \<in> flags (ocs st oc)"
  shows "(timer_idx (ocs st oc) = BINHEAP_NOIDX \<longrightarrow> (\<exists>st'. exp_inbox st oc now = Inr st'))
     \<and> (timer_idx (ocs st oc) \<noteq> BINHEAP_NOIDX \<longrightarrow> exp_inbox st oc now = Inl AssertFail)"
proof -
  let ?s = "inbox_link st oc now"
  note e = exp_inbox_live_unfold [OF off dy free, of now]
  obtain m bh where b: "binheap_insert (ocs ?s) (heap st) oc = (m, bh)"
    by (cases "binheap_insert (ocs ?s) (heap st) oc") auto
  have "timer_idx (m oc) \<noteq> BINHEAP_NOIDX"
    using binheap_insert_ok [of "ocs ?s" "heap st" oc] b by simp
  then show ?thesis
    unfolding e using ins b by simp
qed

lemma exp_inbox_move_ok:
  assumes off: "OC_F_OFFLRU \<in> flags (ocs st oc)" and dy: "OC_F_DYING \<notin> flags (ocs st oc)"
    and free: "\<not> lru_mtx (lrus st (oc_getlru st oc))"
    and ins: "OC_F_INSERT \<notin> flags (ocs st oc)" and mv: "OC_F_MOVE \<in> flags (ocs st oc)"
  shows "(1 \<le> timer_idx (ocs st oc) \<and> timer_idx (ocs st oc) \<le> length (heap st)
            \<longrightarrow> (\<exists>st'. exp_inbox st oc now = Inr st'))
     \<and> (\<not> (1 \<le> timer_idx (ocs st oc) \<and> timer_idx (ocs st oc) \<le> length (heap st))
            \<longrightarrow> exp_inbox st oc now = Inl AssertFail)"
proof (intro conjI impI)
  let ?s = "inbox_link st oc now"
  note e = exp_inbox_live_unfold [OF off dy free, of now]
  {
    assume r: "1 \<le> timer_idx (ocs st oc) \<and> timer_idx (ocs st oc) \<le> length (heap st)"
    then obtain m bh where
      re: "binheap_reorder (ocs ?s) (heap st) (timer_idx (ocs st oc)) = Inr (m, bh)"
      using binheap_reorder_range [of "timer_idx (ocs st oc)" "heap st" "ocs ?s"] by blast
    have i: "timer_idx (ocs ?s oc) \<noteq> BINHEAP_NOIDX"
      using r by (simp add: inbox_link_simps BINHEAP_NOIDX_def)
    from binheap_reorder_ok [OF re] have "heap_touch (set (heap st)) (ocs ?s) m" by simp
    then have "timer_idx (m oc) \<noteq> BINHEAP_NOIDX" using i by (rule heap_touch_idx)
    then show "\<exists>st'. exp_inbox st oc now = Inr st'"
      unfolding e using ins mv re r by (simp add: BINHEAP_NOIDX_def)
  }
  {
    assume n: "\<not> (1 \<le> timer_idx (ocs st oc) \<and> timer_idx (ocs st oc) \<le> length (heap st))"
    then have "timer_idx (ocs st oc) < ROOT_IDX \<or> length (heap st) < timer_idx (ocs st oc)"
      by (auto simp: ROOT_IDX_def)
    then have "binheap_reorder (ocs ?s) (heap st) (timer_idx (ocs st oc)) = Inl AssertFail"
      unfolding binheap_reorder_def by (rule if_P)
    then show "exp_inbox st oc now = Inl AssertFail"
      unfolding e using ins mv by simp
  }
qed

lemma exp_inbox_wrong:
  assumes "OC_F_OFFLRU \<in> flags (ocs st oc)" "OC_F_DYING \<notin> flags (ocs st oc)"
    "\<not> lru_mtx (lrus st (oc_getlru st oc))"
    "OC_F_INSERT \<notin> flags (ocs st oc)" "OC_F_MOVE \<notin> flags (ocs st oc)"
  shows "exp_inbox st oc now = Inl AssertFail"
  using assms by (simp add: exp_inbox_live_unfold)

subsection \<open>The run that kills an object before the thread has seen it\<close>

lemma ex_cleared_simps:
  "ocs ex_cleared = oc_init" "lrus ex_cleared l = lru_init" "inbox ex_cleared = []" "heap ex_cleared = []"
  "objcore (objs ex_cleared 0) = Some 0" "exp_when (objs ex_cleared 0) = - 1"
  by (simp_all add: ex_cleared_def cache_init_def obj_init_def EXP_Clr_def exp_when_def)

lemma oc_init_simps:
  "flags (oc_init i) = {}" "oc_lru (oc_init i) = 0" "timer_idx (oc_init i) = BINHEAP_NOIDX"
  "refcnt (oc_init i) = 1" "oc_obj (oc_init i) = i"
  by (simp_all add: oc_init_def)

lemma lru_init_simps:
  "lru_mtx lru_init = False" "lru_head lru_init = []" "lru_dontmove lru_init = False"
  by (simp_all add: lru_init_def)

lemma ex_posted_run: "EXP_Inject ex_cleared 0 0 110 = Inr ex_posted"
  unfolding ex_posted_def
  by (simp add: EXP_Inject_def Let_def exp_mail_it_def ex_cleared_simps oc_init_simps lru_init_simps)

lemma ex_posted_simps:
  "flags (ocs ex_posted 0) = {OC_F_OFFLRU, OC_F_INSERT}" "timer_when (ocs ex_posted 0) = 110"
  "timer_idx (ocs ex_posted 0) = BINHEAP_NOIDX" "oc_lru (ocs ex_posted 0) = 0"
  "lru_mtx (lrus ex_posted l) = False" "lru_head (lrus ex_posted l) = []"
  "inbox ex_posted = [0]" "heap ex_posted = []"
  "objcore (objs ex_posted 0) = Some 0" "exp_when (objs ex_posted 0) = - 1"
  unfolding ex_posted_def
  by (auto simp: EXP_Inject_def Let_def exp_mail_it_def ex_cleared_simps oc_init_simps lru_init_simps)

lemma ex_early_kill_run: "EXP_Rearm ex_posted 0 = Inr ex_early_kill"
  unfolding ex_early_kill_def
  by (simp add: EXP_Rearm_def Let_def ex_posted_simps oc_getlru_def)

lemma ex_early_kill_simps:
  "flags (ocs ex_early_kill 0) = {OC_F_OFFLRU, OC_F_INSERT, OC_F_DYING}"
  "timer_idx (ocs ex_early_kill 0) = BINHEAP_NOIDX" "oc_lru (ocs ex_early_kill 0) = 0"
  "lru_mtx (lrus ex_early_kill l) = False"
  "inbox ex_early_kill = [0]" "heap ex_early_kill = []"
  unfolding ex_early_kill_def
  by (auto simp: EXP_Rearm_def Let_def ex_posted_simps oc_getlru_def)

lemma ex_nuked_simps:
  "heap ex_nuked = [0]" "timer_when (ocs ex_nuked 0) = 110"
  "flags (ocs ex_nuked 0) = {OC_F_DYING, OC_F_OFFLRU}" "oc_getlru ex_nuked 0 = 0"
  "lru_mtx (lrus ex_nuked 0) = False" "timer_idx (ocs ex_nuked 0) = 1"
  "refcnt (ocs ex_nuked 0) = 2" "lru_head (lrus ex_nuked 0) = []"
  using ex_resident_simps by (simp_all add: ex_nuked_def oc_getlru_def)

lemma ex_claimed_more:
  "timer_idx (ocs ex_claimed 0) = 1" "exp_when (oc_getobj ex_claimed 0) = 110"
  "lru_head (lrus ex_claimed 0) = []" "refcnt (ocs ex_claimed 0) = 2"
  using ex_resident_simps ex_resident_obj
  by (simp_all add: ex_claimed_def oc_getobj_def ex_resident_def cache_init_def oc_init_def)

subsection \<open>The invariant of the inbox and the LRU lists\<close>

lemma mail_inv_init:
  "inbox st = [] \<Longrightarrow> \<forall>l. lru_head (lrus st l) = [] \<Longrightarrow> mail_inv st"
  by (simp add: mail_inv_def)

lemma mail_inv_env:
  assumes "mail_inv st" "env_step st st'"
  shows "mail_inv st'"
proof -
  have f: "a \<in> flags (ocs st' x) \<longleftrightarrow> a \<in> flags (ocs st x)" if "a \<noteq> OC_F_BUSY" for a x
  proof -
    from assms(2) have "flags (ocs st' x) - {OC_F_BUSY} = flags (ocs st x) - {OC_F_BUSY}"
      by (simp add: env_step_def)
    with that show ?thesis by blast
  qed
  from assms show ?thesis
    by (simp add: mail_inv_def env_step_def f)
qed

lemma mail_inv_Inject:
  assumes "mail_inv st" "\<forall>l'. oc \<notin> set (lru_head (lrus st l'))" "EXP_Inject st oc l w = Inr st'"
  shows "mail_inv st'"
  using assms
  by (auto simp: mail_inv_def EXP_Inject_def Let_def exp_mail_it_def split: if_splits)

lemma mail_inv_Insert:
  assumes "mail_inv st" "objcore (objs st o') = Some oc" "\<forall>l'. oc \<notin> set (lru_head (lrus st l'))"
    "EXP_Insert st o' now = Inr st'"
  shows "mail_inv st'"
  using assms
  by (auto simp: mail_inv_def EXP_Insert_def HSH_Ref_def oc_getlru_def Let_def exp_mail_it_def
      split: if_splits)

lemma EXP_Touch_cases:
  assumes "EXP_Touch st oc = (Inr st', r)"
  shows "st' = st
     \<or> (OC_F_OFFLRU \<notin> flags (ocs st oc) \<and> oc \<in> set (lru_head (lrus st (oc_getlru st oc)))
         \<and> st' = (lru_upd st (oc_getlru st oc)
                    (\<lambda>r. r\<lparr>lru_head := remove1 oc (lru_head r) @ [oc]\<rparr>))
                  \<lparr>n_lru_moved := n_lru_moved st + 1\<rparr>)"
  using assms by (simp add: EXP_Touch_def Let_def split: if_splits)

lemma set_move_last: "x \<in> set xs \<Longrightarrow> set (remove1 x xs @ [x]) = set xs"
  by (induction xs) auto

lemma mail_inv_Touch:
  assumes inv: "mail_inv st" and t: "EXP_Touch st oc = (Inr st', r)"
  shows "mail_inv st'"
proof -
  from EXP_Touch_cases [OF t] show ?thesis
  proof (elim disjE conjE)
    assume "st' = st" with inv show ?thesis by simp
  next
    let ?l = "oc_getlru st oc"
    assume mem: "oc \<in> set (lru_head (lrus st ?l))"
      and st': "st' = (lru_upd st ?l (\<lambda>r. r\<lparr>lru_head := remove1 oc (lru_head r) @ [oc]\<rparr>))
                  \<lparr>n_lru_moved := n_lru_moved st + 1\<rparr>"
    have h: "lru_head (lrus st' l) = (if l = ?l then remove1 oc (lru_head (lrus st ?l)) @ [oc]
                                        else lru_head (lrus st l))" for l
      by (simp add: st')
    have s: "set (lru_head (lrus st' l)) = set (lru_head (lrus st l))" for l
      using mem by (simp add: h set_move_last del: set_append)
    have d: "distinct (lru_head (lrus st' l))" for l
      using inv by (simp add: h mail_inv_def)
    have o: "ocs st' = ocs st" "inbox st' = inbox st" by (simp_all add: st')
    from inv show ?thesis
      unfolding mail_inv_def s o using d by simp
  qed
qed

lemma EXP_Rearm_result:
  assumes "EXP_Rearm st o' = Inr st'"
  shows "st' = st
     \<or> (\<exists>oc f. objcore (objs st o') = Some oc \<and> f \<in> {OC_F_DYING, OC_F_MOVE}
           \<and> OC_F_OFFLRU \<in> flags (ocs st oc)
           \<and> st' = oc_upd st oc (\<lambda>c. c\<lparr>flags := flags c \<union> {f}\<rparr>))
     \<or> (\<exists>oc f. objcore (objs st o') = Some oc \<and> f \<in> {OC_F_DYING, OC_F_MOVE}
           \<and> OC_F_OFFLRU \<notin> flags (ocs st oc)
           \<and> oc \<in> set (lru_head (lrus st (oc_getlru st oc)))
           \<and> (\<exists>s. s = lru_upd (oc_upd st oc (\<lambda>c. c\<lparr>flags := flags c \<union> {f, OC_F_OFFLRU}\<rparr>))
                        (oc_getlru st oc) (\<lambda>r. r\<lparr>lru_head := remove1 oc (lru_head r)\<rparr>)
                 \<and> st' = s\<lparr>inbox := (if OC_F_DYING \<in> flags (ocs s oc) then oc # inbox st
                                      else inbox st @ [oc])\<rparr>))"
proof (cases "objcore (objs st o')")
  case None
  with assms show ?thesis by (simp add: EXP_Rearm_def)
next
  case (Some oc)
  show ?thesis
  proof (cases "timer_when (ocs st oc) = exp_when (objs st o')")
    case True
    with assms Some show ?thesis by (simp add: EXP_Rearm_def)
  next
    case False
    let ?f = "if exp_when (objs st o') < 0 then OC_F_DYING else OC_F_MOVE"
    have f: "?f \<in> {OC_F_DYING, OC_F_MOVE}" by simp
    show ?thesis
    proof (cases "OC_F_OFFLRU \<in> flags (ocs st oc)")
      case True
      with assms Some False have "st' = oc_upd st oc (\<lambda>c. c\<lparr>flags := flags c \<union> {?f}\<rparr>)"
        by (auto simp: EXP_Rearm_def Let_def oc_getlru_def split: if_splits)
      with Some True f show ?thesis by blast
    next
      case off: False
      from assms Some False off have mem: "oc \<in> set (lru_head (lrus st (oc_getlru st oc)))"
        by (auto simp: EXP_Rearm_def Let_def oc_getlru_def split: if_splits)
      let ?s = "lru_upd (oc_upd st oc (\<lambda>c. c\<lparr>flags := flags c \<union> {?f, OC_F_OFFLRU}\<rparr>))
                        (oc_getlru st oc) (\<lambda>r. r\<lparr>lru_head := remove1 oc (lru_head r)\<rparr>)"
      from assms Some False off mem
      have "st' = ?s\<lparr>inbox := (if OC_F_DYING \<in> flags (ocs ?s oc) then oc # inbox st
                                      else inbox st @ [oc])\<rparr>"
        by (auto simp: EXP_Rearm_def Let_def oc_getlru_def exp_mail_it_def oc_upd_def lru_upd_def
            insert_commute split: if_splits)
      with Some off mem f show ?thesis by blast
    qed
  qed
qed


lemma mail_inv_Rearm:
  assumes inv: "mail_inv st" and r: "EXP_Rearm st o' = Inr st'"
  shows "mail_inv st'"
proof -
  from EXP_Rearm_result [OF r] show ?thesis
  proof (elim disjE exE conjE)
    assume "st' = st" with inv show ?thesis by simp
  next
    fix oc f
    assume "f \<in> {OC_F_DYING, OC_F_MOVE}"
      and "st' = oc_upd st oc (\<lambda>c. c\<lparr>flags := flags c \<union> {f}\<rparr>)"
    with inv show ?thesis by (auto simp: mail_inv_def)
  next
    fix oc f s
    assume f: "f \<in> {OC_F_DYING, OC_F_MOVE}"
      and off: "OC_F_OFFLRU \<notin> flags (ocs st oc)"
      and mem: "oc \<in> set (lru_head (lrus st (oc_getlru st oc)))"
      and s: "s = lru_upd (oc_upd st oc (\<lambda>c. c\<lparr>flags := flags c \<union> {f, OC_F_OFFLRU}\<rparr>))
                        (oc_getlru st oc) (\<lambda>r. r\<lparr>lru_head := remove1 oc (lru_head r)\<rparr>)"
      and st': "st' = s\<lparr>inbox := (if OC_F_DYING \<in> flags (ocs s oc) then oc # inbox st
                                      else inbox st @ [oc])\<rparr>"
    from inv off have nin: "oc \<notin> set (inbox st)" by (auto simp: mail_inv_def)
    have fl: "flags (ocs st' x) = (if x = oc then flags (ocs st oc) \<union> {f, OC_F_OFFLRU}
                                    else flags (ocs st x))" for x
      by (simp add: st' s)
    have ol: "oc_lru (ocs st' x) = oc_lru (ocs st x)" for x
      by (simp add: st' s)
    have ib: "set (inbox st') = insert oc (set (inbox st))" "distinct (inbox st') = distinct (inbox st)"
      using nin by (auto simp: st' s)
    have lh: "lru_head (lrus st' l) = (if l = oc_getlru st oc then remove1 oc (lru_head (lrus st l))
                                         else lru_head (lrus st l))" for l
      by (simp add: st' s)
    have a: "\<forall>x\<in>set (inbox st'). OC_F_OFFLRU \<in> flags (ocs st' x)
         \<and> (OC_F_INSERT \<in> flags (ocs st' x) \<or> OC_F_MOVE \<in> flags (ocs st' x)
             \<or> OC_F_DYING \<in> flags (ocs st' x))"
      using inv f unfolding ib fl by (auto simp: mail_inv_def)
    have b: "\<forall>l. \<forall>x\<in>set (lru_head (lrus st' l)). OC_F_OFFLRU \<notin> flags (ocs st' x) \<and> oc_lru (ocs st' x) = l"
    proof (intro allI ballI)
      fix l x assume x: "x \<in> set (lru_head (lrus st' l))"
      then have xin: "x \<in> set (lru_head (lrus st l))"
        using set_remove1_subset [of oc "lru_head (lrus st l)"]
        by (auto simp: lh split: if_splits)
      with inv have p: "OC_F_OFFLRU \<notin> flags (ocs st x) \<and> oc_lru (ocs st x) = l"
        by (simp add: mail_inv_def)
      have "x \<noteq> oc"
      proof
        assume e: "x = oc"
        with p have "l = oc_getlru st oc" by (simp add: oc_getlru_def)
        with x e have "oc \<in> set (remove1 oc (lru_head (lrus st l)))" by (simp add: lh)
        moreover from inv have "distinct (lru_head (lrus st l))" by (simp add: mail_inv_def)
        ultimately show False by simp
      qed
      with p show "OC_F_OFFLRU \<notin> flags (ocs st' x) \<and> oc_lru (ocs st' x) = l"
        by (simp add: fl ol)
    qed
    have c: "\<forall>l. distinct (lru_head (lrus st' l))"
      using inv by (simp add: lh mail_inv_def)
    from a b c inv show ?thesis
      unfolding mail_inv_def ib(2) by simp
  qed
qed

lemma nuke_loop_result:
  "nuke_loop st l xs = Inr (st1, r) \<Longrightarrow>
   (r = None \<and> st1 = st)
   \<or> (\<exists>oc. r = Some oc \<and> oc \<in> set xs \<and> refcnt (ocs st oc) = 1
         \<and> st1 = lru_upd ((oc_upd (oc_upd st oc (\<lambda>c. c\<lparr>flags := flags c \<union> {OC_F_DYING, OC_F_OFFLRU}\<rparr>)) oc
                      (\<lambda>c. c\<lparr>refcnt := refcnt c + 1\<rparr>))\<lparr>n_lru_nuked := n_lru_nuked st + 1\<rparr>) l
            (\<lambda>r. r\<lparr>lru_head := remove1 oc (lru_head r)\<rparr>))"
proof (induction xs)
  case Nil
  then show ?case by simp
next
  case (Cons x xs)
  show ?case
  proof (cases "OC_F_BUSY \<in> flags (ocs st x) \<or> refcnt (ocs st x) > 1
                \<or> oh_mtx st (objhead (ocs st x)) \<or> refcnt (ocs st x) \<noteq> 1")
    case True
    with Cons.prems have "nuke_loop st l xs = Inr (st1, r)"
      by (auto simp: Let_def split: if_splits)
    from Cons.IH [OF this] show ?thesis by auto
  next
    case False
    with Cons.prems show ?thesis
      by (auto simp: Let_def split: if_splits)
  qed
qed

lemma mail_inv_NukeOne:
  assumes inv: "mail_inv st" and ret: "EXP_NukeOne st l = Inr (st', r)"
  shows "mail_inv st'"
proof -
  from ret obtain st1 q where loop: "nuke_loop st l (lru_head (lrus st l)) = Inr (st1, q)"
    by (auto simp: EXP_NukeOne_def split: if_splits sum.splits)
  from nuke_loop_result [OF loop] show ?thesis
  proof
    assume "q = None \<and> st1 = st"
    with ret loop inv show ?thesis
      by (auto simp: EXP_NukeOne_def split: if_splits)
  next
    assume "\<exists>oc. q = Some oc \<and> oc \<in> set (lru_head (lrus st l)) \<and> refcnt (ocs st oc) = 1
         \<and> st1 = lru_upd ((oc_upd (oc_upd st oc (\<lambda>c. c\<lparr>flags := flags c \<union> {OC_F_DYING, OC_F_OFFLRU}\<rparr>)) oc
                      (\<lambda>c. c\<lparr>refcnt := refcnt c + 1\<rparr>))\<lparr>n_lru_nuked := n_lru_nuked st + 1\<rparr>) l
            (\<lambda>r. r\<lparr>lru_head := remove1 oc (lru_head r)\<rparr>)"
    then obtain oc where q: "q = Some oc" and mem: "oc \<in> set (lru_head (lrus st l))"
      and st1: "st1 = lru_upd ((oc_upd (oc_upd st oc (\<lambda>c. c\<lparr>flags := flags c \<union> {OC_F_DYING, OC_F_OFFLRU}\<rparr>)) oc
                      (\<lambda>c. c\<lparr>refcnt := refcnt c + 1\<rparr>))\<lparr>n_lru_nuked := n_lru_nuked st + 1\<rparr>) l
            (\<lambda>r. r\<lparr>lru_head := remove1 oc (lru_head r)\<rparr>)"
      by blast
    from inv mem have off: "OC_F_OFFLRU \<notin> flags (ocs st oc)" and lr: "oc_lru (ocs st oc) = l"
      by (auto simp: mail_inv_def)
    from inv off have nin: "oc \<notin> set (inbox st)" by (auto simp: mail_inv_def)
    have other: "oc \<notin> set (lru_head (lrus st l'))" if "l' \<noteq> l" for l'
      using inv lr that by (auto simp: mail_inv_def)
    from ret loop q have st': "st' = HSH_DerefObjCore (st1\<lparr>inbox := oc # inbox st1\<rparr>) oc"
      by (auto simp: EXP_NukeOne_def exp_mail_it_def st1 split: if_splits)
    show ?thesis
      using inv nin other unfolding st' st1 HSH_DerefObjCore_def
      by (auto simp: mail_inv_def)
  qed
qed

lemma exp_expire_cases:
  assumes "exp_expire st now = Inr (st', r)"
  shows "st' = st
     \<or> (\<exists>oc. binheap_root (heap st) = Some oc \<and> OC_F_OFFLRU \<in> flags (ocs st oc)
           \<and> st' = oc_upd (st\<lparr>n_expired := n_expired st + 1\<rparr>) oc
                     (\<lambda>c. c\<lparr>flags := flags c \<union> {OC_F_DYING}\<rparr>))
     \<or> (\<exists>oc. binheap_root (heap st) = Some oc \<and> timer_when (ocs st oc) \<le> now
           \<and> OC_F_BUSY \<notin> flags (ocs st oc) \<and> OC_F_OFFLRU \<notin> flags (ocs st oc))"
proof (cases "binheap_root (heap st)")
  case None
  with assms show ?thesis by (simp add: exp_expire_def)
next
  case (Some oc)
  show ?thesis
  proof (cases "timer_when (ocs st oc) > now \<or> OC_F_BUSY \<in> flags (ocs st oc)")
    case True
    then have "exp_expire st now = Inr (st, timer_when (ocs st oc))
       \<or> exp_expire st now = Inr (st, now + 0.01)"
      using Some by (auto simp: exp_expire_def)
    with assms show ?thesis by auto
  next
    case False
    show ?thesis
    proof (cases "OC_F_OFFLRU \<in> flags (ocs st oc)")
      case True
      with assms Some False show ?thesis
        by (auto simp: exp_expire_def Let_def split: if_splits)
    next
      case off: False
      with Some False show ?thesis by auto
    qed
  qed
qed

lemma mail_inv_expire:
  assumes inv: "mail_inv st" and ret: "exp_expire st now = Inr (st', r)"
  shows "mail_inv st'"
  using exp_expire_cases [OF ret]
proof (elim disjE exE conjE)
  assume "st' = st"
  with inv show ?thesis by simp
next
  fix oc
  assume "st' = oc_upd (st\<lparr>n_expired := n_expired st + 1\<rparr>) oc
                     (\<lambda>c. c\<lparr>flags := flags c \<union> {OC_F_DYING}\<rparr>)"
  with inv show ?thesis by (auto simp: mail_inv_def)
next
  fix oc
  assume root: "binheap_root (heap st) = Some oc" and due: "timer_when (ocs st oc) \<le> now"
    and nb: "OC_F_BUSY \<notin> flags (ocs st oc)" and on: "OC_F_OFFLRU \<notin> flags (ocs st oc)"
  let ?l = "oc_getlru st oc"
  note p = exp_expire_fire_post [OF root due nb on ret]
  from p have fl: "flags (ocs st' oc) = flags (ocs st oc) \<union> {OC_F_DYING, OC_F_OFFLRU}"
    and fo: "\<And>x. x \<noteq> oc \<Longrightarrow> flags (ocs st' x) = flags (ocs st x)"
    and ib: "inbox st' = inbox st"
    and ll: "lru_head (lrus st' ?l) = remove1 oc (lru_head (lrus st ?l))"
    and lo: "\<And>l'. l' \<noteq> ?l \<Longrightarrow> lrus st' l' = lrus st l'"
    and ol: "\<And>x. oc_lru (ocs st' x) = oc_lru (ocs st x)"
    by simp_all
  from inv on have nin: "oc \<notin> set (inbox st)" by (auto simp: mail_inv_def)
  have lists: "set (lru_head (lrus st' l)) \<subseteq> set (lru_head (lrus st l)) - {oc}"
    "distinct (lru_head (lrus st' l))" for l
  proof -
    show "set (lru_head (lrus st' l)) \<subseteq> set (lru_head (lrus st l)) - {oc}"
    proof (cases "l = ?l")
      case True
      with inv ll show ?thesis by (auto simp: mail_inv_def)
    next
      case False
      with inv lo [OF False] show ?thesis by (auto simp: mail_inv_def oc_getlru_def)
    qed
    show "distinct (lru_head (lrus st' l))"
      using inv ll lo [of l] by (cases "l = ?l") (auto simp: mail_inv_def)
  qed
  show ?thesis
    unfolding mail_inv_def
  proof (intro conjI ballI allI)
    fix x assume "x \<in> set (inbox st')"
    with ib nin have x: "x \<in> set (inbox st)" "x \<noteq> oc" by auto
    with inv fo [OF x(2)] show "OC_F_OFFLRU \<in> flags (ocs st' x)"
      and "OC_F_INSERT \<in> flags (ocs st' x) \<or> OC_F_MOVE \<in> flags (ocs st' x)
             \<or> OC_F_DYING \<in> flags (ocs st' x)"
      by (auto simp: mail_inv_def)
  next
    show "distinct (inbox st')" using inv ib by (simp add: mail_inv_def)
  next
    fix l x assume "x \<in> set (lru_head (lrus st' l))"
    with lists(1) [of l] have x: "x \<in> set (lru_head (lrus st l))" "x \<noteq> oc" by auto
    with inv fo [OF x(2)] ol [of x] show "OC_F_OFFLRU \<notin> flags (ocs st' x)"
      and "oc_lru (ocs st' x) = l"
      by (auto simp: mail_inv_def)
  next
    fix l show "distinct (lru_head (lrus st' l))" by (rule lists(2))
  qed
qed

lemma mail_inv_inbox:
  assumes inv: "mail_inv st" and ib: "inbox st = oc # rest"
    and ret: "exp_inbox (st\<lparr>inbox := rest\<rparr>) oc now = Inr st'"
  shows "mail_inv st'"
proof -
  let ?s = "st\<lparr>inbox := rest\<rparr>"
  from inv ib have off: "OC_F_OFFLRU \<in> flags (ocs ?s oc)" and nin: "oc \<notin> set rest"
    and dr: "distinct rest"
    by (auto simp: mail_inv_def)
  from inv off have nl: "oc \<notin> set (lru_head (lrus st l))" for l
    by (auto simp: mail_inv_def)
  have rest: "x \<in> set rest \<Longrightarrow> x \<noteq> oc \<and> OC_F_OFFLRU \<in> flags (ocs st x)
         \<and> (OC_F_INSERT \<in> flags (ocs st x) \<or> OC_F_MOVE \<in> flags (ocs st x)
             \<or> OC_F_DYING \<in> flags (ocs st x))" for x
    using inv ib nin by (auto simp: mail_inv_def)
  have onl: "x \<in> set (lru_head (lrus st l)) \<Longrightarrow> x \<noteq> oc \<and> OC_F_OFFLRU \<notin> flags (ocs st x)
         \<and> oc_lru (ocs st x) = l" for x l
    using inv nl by (auto simp: mail_inv_def)
  have dl: "distinct (lru_head (lrus st l))" for l using inv by (simp add: mail_inv_def)
  show ?thesis
  proof (cases "OC_F_DYING \<in> flags (ocs ?s oc)")
    case True
    note p = exp_inbox_dying_post [OF off True ret]
    from p have fo: "\<And>x. x \<noteq> oc \<Longrightarrow> flags (ocs st' x) = flags (ocs st x)"
      and ib': "inbox st' = rest" and ll: "lrus st' = lrus st"
      and ol: "\<And>x. oc_lru (ocs st' x) = oc_lru (ocs st x)"
      by simp_all
    show ?thesis
      unfolding mail_inv_def ib' ll using rest onl dl dr fo ol by auto
  next
    case False
    note p = exp_inbox_live_post [OF off False ret]
    let ?l = "oc_lru (ocs st oc)"
    from p have fo: "\<And>x. x \<noteq> oc \<Longrightarrow> flags (ocs st' x) = flags (ocs st x)"
      and fl: "flags (ocs st' oc) = flags (ocs st oc) - {OC_F_INSERT, OC_F_MOVE, OC_F_OFFLRU}"
      and ib': "inbox st' = rest"
      and ll: "lrus st' = (lrus st)(?l := (lrus st ?l)\<lparr>lru_head := lru_head (lrus st ?l) @ [oc]\<rparr>)"
      and ol: "\<And>x. oc_lru (ocs st' x) = oc_lru (ocs st x)"
      by (simp_all add: oc_getlru_def)
    show ?thesis
      unfolding mail_inv_def ib'
    proof (intro conjI ballI allI)
      fix x assume "x \<in> set rest"
      from rest [OF this] fo [of x] show "OC_F_OFFLRU \<in> flags (ocs st' x)"
        and "OC_F_INSERT \<in> flags (ocs st' x) \<or> OC_F_MOVE \<in> flags (ocs st' x)
             \<or> OC_F_DYING \<in> flags (ocs st' x)" by auto
    next
      show "distinct rest" by (rule dr)
    next
      fix l x assume x: "x \<in> set (lru_head (lrus st' l))"
      show "OC_F_OFFLRU \<notin> flags (ocs st' x)" and "oc_lru (ocs st' x) = l"
      proof -
        from x ll have c: "(x = oc \<and> l = ?l) \<or> x \<in> set (lru_head (lrus st l))"
          by (auto split: if_splits)
        from c show "OC_F_OFFLRU \<notin> flags (ocs st' x)"
          using fl fo [of x] onl [of x l] by auto
        from c show "oc_lru (ocs st' x) = l"
          using ol [of x] onl [of x l] by auto
      qed
    next
      fix l show "distinct (lru_head (lrus st' l))"
        using ll dl [of l] nl [of l] by (auto split: if_splits)
    qed
  qed
qed

lemma mail_inv_thread:
  assumes inv: "mail_inv st" and ret: "exp_thread_iter (st, loc) now = Inr (st', loc')"
  shows "mail_inv st'"
proof (cases "inbox st")
  case Nil
  with ret obtain r where "exp_expire st now = Inr (st', r)"
    by (auto simp: exp_thread_iter_def exp_dequeue_def split: sum.splits)
  with inv show ?thesis by (rule mail_inv_expire)
next
  case (Cons oc rest)
  with ret have "exp_inbox (st\<lparr>inbox := rest\<rparr>) oc now = Inr st'"
    by (auto simp: exp_thread_iter_def exp_dequeue_def split: sum.splits)
  with inv Cons show ?thesis by (rule mail_inv_inbox)
qed

lemma reach_mail_inv: "reach st \<Longrightarrow> mail_inv st"
proof (induction rule: reach.induct)
  case (reach_init st)
  then show ?case by (simp add: mail_inv_init)
next
  case (reach_env st st')
  then show ?case by (simp add: mail_inv_env)
next
  case (reach_Inject st oc l w st')
  then show ?case using mail_inv_Inject by blast
next
  case (reach_Insert st o' oc now st')
  then show ?case using mail_inv_Insert by blast
next
  case (reach_Touch st oc st' r)
  then show ?case using mail_inv_Touch by blast
next
  case (reach_Rearm st o' st')
  then show ?case using mail_inv_Rearm by blast
next
  case (reach_NukeOne st l st' r)
  then show ?case using mail_inv_NukeOne by blast
next
  case (reach_thread st loc now st' loc')
  then show ?case using mail_inv_thread by blast
qed

lemma cache_init_simps:
  "ocs cache_init = oc_init" "lrus cache_init l = lru_init" "inbox cache_init = []"
  "heap cache_init = []" "objs cache_init = obj_init"
  by (simp_all add: cache_init_def)

lemma obj_init_simps:
  "objcore (obj_init i) = Some i" "exp_when (obj_init i) = 110"
  by (simp_all add: obj_init_def exp_when_def)

lemma ex_injected_run: "EXP_Inject cache_init 0 0 105 = Inr ex_injected"
  unfolding ex_injected_def
  by (simp add: EXP_Inject_def Let_def exp_mail_it_def cache_init_simps oc_init_simps lru_init_simps)

lemma ex_injected_simps:
  "flags (ocs ex_injected 0) = {OC_F_OFFLRU, OC_F_INSERT}" "timer_when (ocs ex_injected 0) = 105"
  "oc_lru (ocs ex_injected 0) = 0" "lru_mtx (lrus ex_injected l) = False"
  "inbox ex_injected = [0]" "objcore (objs ex_injected 0) = Some 0"
  "exp_when (objs ex_injected 0) = 110"
  unfolding ex_injected_def
  by (auto simp: EXP_Inject_def Let_def exp_mail_it_def cache_init_simps oc_init_simps lru_init_simps
      obj_init_simps)

lemma ex_insert_move_run: "EXP_Rearm ex_injected 0 = Inr ex_insert_move"
  unfolding ex_insert_move_def
  by (simp add: EXP_Rearm_def Let_def ex_injected_simps oc_getlru_def)

lemma ex_insert_move_simps:
  "flags (ocs ex_insert_move 0) = {OC_F_OFFLRU, OC_F_INSERT, OC_F_MOVE}"
  "inbox ex_insert_move = [0]"
  unfolding ex_insert_move_def
  by (auto simp: EXP_Rearm_def Let_def ex_injected_simps oc_getlru_def)

lemma reach_ex_insert_move: "reach ex_insert_move"
proof -
  have "reach cache_init"
    by (rule reach_init) (simp_all add: cache_init_simps lru_init_simps)
  then have "reach ex_injected"
    by (rule reach_Inject [OF _ _ ex_injected_run]) (simp add: cache_init_simps lru_init_simps)
  then show ?thesis
    by (rule reach_Rearm [OF _ ex_insert_move_run])
qed

lemma reach_ex_early_kill: "reach ex_early_kill"
proof -
  have "reach ex_cleared"
    by (rule reach_init) (simp_all add: ex_cleared_simps lru_init_simps)
  then have "reach ex_posted"
    by (rule reach_Inject [OF _ _ ex_posted_run]) (simp add: ex_cleared_simps lru_init_simps)
  then show ?thesis
    by (rule reach_Rearm [OF _ ex_early_kill_run])
qed

lemma ex_posted_more: "refcnt (ocs ex_posted 0) = 1"
  unfolding ex_posted_def
  by (auto simp: EXP_Inject_def Let_def exp_mail_it_def ex_cleared_simps oc_init_simps lru_init_simps)

text \<open>
  What \<open>exp_inbox\<close> does with an objcore taken from the inbox, case by case (\<open>OFFLRU\<close>
  set, the LRU mutex free, no objcore twice in the heap).
\<close>

lemma exp_inbox_cases:
  assumes off: "OC_F_OFFLRU \<in> flags (ocs st oc)"
    and free: "\<not> lru_mtx (lrus st (oc_getlru st oc))"
    and d: "distinct (heap st)"
  shows "(OC_F_DYING \<in> flags (ocs st oc) \<longrightarrow>
      (if 1 \<le> timer_idx (ocs st oc) \<and> timer_idx (ocs st oc) \<le> length (heap st)
           \<and> heap st ! (timer_idx (ocs st oc) - 1) = oc
       then \<exists>st'. exp_inbox st oc now = Inr st'
              \<and> flags (ocs st' oc) = flags (ocs st oc) - {OC_F_INSERT, OC_F_MOVE, OC_F_OFFLRU}
              \<and> last_lru (ocs st' oc) = now
              \<and> lrus st' = lrus st
              \<and> mset (heap st') = mset (heap st) - {#oc#}
              \<and> timer_idx (ocs st' oc) = BINHEAP_NOIDX
              \<and> timer_when (ocs st' oc) = timer_when (ocs st oc)
              \<and> refcnt (ocs st' oc) = refcnt (ocs st oc) - 1
       else exp_inbox st oc now = Inl AssertFail))
   \<and> (OC_F_DYING \<notin> flags (ocs st oc) \<longrightarrow>
      (if (OC_F_INSERT \<in> flags (ocs st oc) \<and> timer_idx (ocs st oc) = BINHEAP_NOIDX)
           \<or> (OC_F_INSERT \<notin> flags (ocs st oc) \<and> OC_F_MOVE \<in> flags (ocs st oc)
               \<and> 1 \<le> timer_idx (ocs st oc) \<and> timer_idx (ocs st oc) \<le> length (heap st))
       then \<exists>st'. exp_inbox st oc now = Inr st'
              \<and> flags (ocs st' oc) = flags (ocs st oc) - {OC_F_INSERT, OC_F_MOVE, OC_F_OFFLRU}
              \<and> last_lru (ocs st' oc) = now
              \<and> lru_head (lrus st' (oc_getlru st oc)) = lru_head (lrus st (oc_getlru st oc)) @ [oc]
              \<and> timer_when (ocs st' oc) =
                  (if OC_F_MOVE \<in> flags (ocs st oc) then exp_when (oc_getobj st oc)
                   else timer_when (ocs st oc))
              \<and> mset (heap st') =
                  (if OC_F_INSERT \<in> flags (ocs st oc) then add_mset oc (mset (heap st))
                   else mset (heap st))
              \<and> timer_idx (ocs st' oc) \<noteq> BINHEAP_NOIDX
              \<and> refcnt (ocs st' oc) = refcnt (ocs st oc)
       else exp_inbox st oc now = Inl AssertFail))"
proof (intro conjI impI)
  assume dy: "OC_F_DYING \<in> flags (ocs st oc)"
  show "if 1 \<le> timer_idx (ocs st oc) \<and> timer_idx (ocs st oc) \<le> length (heap st)
           \<and> heap st ! (timer_idx (ocs st oc) - 1) = oc
       then \<exists>st'. exp_inbox st oc now = Inr st'
              \<and> flags (ocs st' oc) = flags (ocs st oc) - {OC_F_INSERT, OC_F_MOVE, OC_F_OFFLRU}
              \<and> last_lru (ocs st' oc) = now
              \<and> lrus st' = lrus st
              \<and> mset (heap st') = mset (heap st) - {#oc#}
              \<and> timer_idx (ocs st' oc) = BINHEAP_NOIDX
              \<and> timer_when (ocs st' oc) = timer_when (ocs st oc)
              \<and> refcnt (ocs st' oc) = refcnt (ocs st oc) - 1
       else exp_inbox st oc now = Inl AssertFail"
  proof (cases "1 \<le> timer_idx (ocs st oc) \<and> timer_idx (ocs st oc) \<le> length (heap st)
           \<and> heap st ! (timer_idx (ocs st oc) - 1) = oc")
    case True
    then obtain st' where r: "exp_inbox st oc now = Inr st'"
      using exp_inbox_dying_ok [OF off dy free d, of now] by blast
    from exp_inbox_dying_post [OF off dy r] r True show ?thesis by simp
  next
    case False
    then show ?thesis using exp_inbox_dying_fail [OF off dy free, of now] by simp
  qed
next
  assume dy: "OC_F_DYING \<notin> flags (ocs st oc)"
  let ?c = "(OC_F_INSERT \<in> flags (ocs st oc) \<and> timer_idx (ocs st oc) = BINHEAP_NOIDX)
           \<or> (OC_F_INSERT \<notin> flags (ocs st oc) \<and> OC_F_MOVE \<in> flags (ocs st oc)
               \<and> 1 \<le> timer_idx (ocs st oc) \<and> timer_idx (ocs st oc) \<le> length (heap st))"
  show "if ?c
       then \<exists>st'. exp_inbox st oc now = Inr st'
              \<and> flags (ocs st' oc) = flags (ocs st oc) - {OC_F_INSERT, OC_F_MOVE, OC_F_OFFLRU}
              \<and> last_lru (ocs st' oc) = now
              \<and> lru_head (lrus st' (oc_getlru st oc)) = lru_head (lrus st (oc_getlru st oc)) @ [oc]
              \<and> timer_when (ocs st' oc) =
                  (if OC_F_MOVE \<in> flags (ocs st oc) then exp_when (oc_getobj st oc)
                   else timer_when (ocs st oc))
              \<and> mset (heap st') =
                  (if OC_F_INSERT \<in> flags (ocs st oc) then add_mset oc (mset (heap st))
                   else mset (heap st))
              \<and> timer_idx (ocs st' oc) \<noteq> BINHEAP_NOIDX
              \<and> refcnt (ocs st' oc) = refcnt (ocs st oc)
       else exp_inbox st oc now = Inl AssertFail"
  proof (cases ?c)
    case True
    then obtain st' where r: "exp_inbox st oc now = Inr st'"
      using exp_inbox_insert_ok [OF off dy free, of now] exp_inbox_move_ok [OF off dy free, of now]
      by blast
    from exp_inbox_live_post [OF off dy r] r True show ?thesis by auto
  next
    case False
    then have "exp_inbox st oc now = Inl AssertFail"
      using exp_inbox_insert_ok [OF off dy free, of now] exp_inbox_move_ok [OF off dy free, of now]
        exp_inbox_wrong [OF off dy free, of now]
      by blast
    with False show ?thesis by simp
  qed
qed

subsection \<open>The run that leaves an objcore unlinked with \<open>OFFLRU\<close> clear\<close>


lemma ex_inserted_simps:
  "flags (ocs ex_inserted 0) = {OC_F_OFFLRU, OC_F_INSERT}" "timer_when (ocs ex_inserted 0) = 110"
  "timer_idx (ocs ex_inserted 0) = BINHEAP_NOIDX" "oc_lru (ocs ex_inserted 0) = 0"
  "refcnt (ocs ex_inserted 0) = 2" "oc_obj (ocs ex_inserted 0) = 0"
  "lrus ex_inserted l = lru_init\<lparr>n_objcore := (if l = 0 then 1 else 0)\<rparr>"
  "inbox ex_inserted = [0]" "heap ex_inserted = []" "objs ex_inserted = obj_init"
  unfolding ex_inserted_def
  by (auto simp: EXP_Insert_def HSH_Ref_def Let_def exp_mail_it_def oc_getlru_def cache_init_simps
      obj_init_def oc_init_def lru_init_def exp_when_def BINHEAP_NOIDX_def)


lemma ex_linked_simps:
  "flags (ocs ex_linked 0) = {}" "timer_when (ocs ex_linked 0) = 110"
  "timer_idx (ocs ex_linked 0) = 1" "oc_lru (ocs ex_linked 0) = 0"
  "refcnt (ocs ex_linked 0) = 2"
  "lru_mtx (lrus ex_linked l) = False" "lru_dontmove (lrus ex_linked l) = False"
  "lru_head (lrus ex_linked l) = (if l = 0 then [0] else [])"
  "inbox ex_linked = []" "heap ex_linked = [0]" "objs ex_linked = obj_init"
  unfolding ex_linked_def
  by (simp_all add: exp_thread_iter_def exp_dequeue_def exp_inbox_def Let_def oc_getlru_def
      ex_inserted_simps lru_init_simps binheap_insert_def binheap_trickleup.simps ROOT_IDX_def
      object_update_def BINHEAP_NOIDX_def)


lemma ex_purged_simps:
  "ocs ex_purged = ocs ex_linked" "lrus ex_purged = lrus ex_linked" "inbox ex_purged = []"
  "heap ex_purged = [0]" "objcore (objs ex_purged 0) = Some 0" "exp_when (objs ex_purged 0) = - 1"
  by (simp_all add: ex_purged_def ex_linked_simps obj_init_def EXP_Clr_def exp_when_def)


lemma ex_kill_mail_simps:
  "flags (ocs ex_kill_mail 0) = {OC_F_DYING, OC_F_OFFLRU}" "timer_when (ocs ex_kill_mail 0) = 110"
  "timer_idx (ocs ex_kill_mail 0) = 1" "oc_lru (ocs ex_kill_mail 0) = 0"
  "refcnt (ocs ex_kill_mail 0) = 2"
  "lru_mtx (lrus ex_kill_mail l) = False" "lru_dontmove (lrus ex_kill_mail l) = False"
  "lru_head (lrus ex_kill_mail l) = []"
  "inbox ex_kill_mail = [0]" "heap ex_kill_mail = [0]"
  "objcore (objs ex_kill_mail 0) = Some 0" "exp_when (objs ex_kill_mail 0) = - 1"
  unfolding ex_kill_mail_def
  by (auto simp: EXP_Rearm_def Let_def exp_mail_it_def oc_getlru_def ex_purged_simps ex_linked_simps)


lemma ex_dead_simps:
  "flags (ocs ex_dead 0) = {OC_F_DYING}" "timer_when (ocs ex_dead 0) = 110"
  "timer_idx (ocs ex_dead 0) = BINHEAP_NOIDX" "oc_lru (ocs ex_dead 0) = 0"
  "refcnt (ocs ex_dead 0) = 1"
  "lru_mtx (lrus ex_dead l) = False" "lru_dontmove (lrus ex_dead l) = False"
  "lru_head (lrus ex_dead l) = []"
  "inbox ex_dead = []" "heap ex_dead = []"
  "objcore (objs ex_dead 0) = Some 0" "exp_when (objs ex_dead 0) = - 1"
  unfolding ex_dead_def
  by (auto simp: exp_thread_iter_def exp_dequeue_def exp_inbox_def Let_def oc_getlru_def
      ex_kill_mail_simps binheap_delete_def ROOT_IDX_def HSH_DerefObjCore_def
      object_update_def BINHEAP_NOIDX_def)




lemma EXP_Touch_ex_dead: "EXP_Touch ex_dead 0 = (Inl StaleLink, 1)"
  by (simp add: EXP_Touch_def Let_def oc_getlru_def ex_dead_simps)

lemma ex_early_kill_more: "refcnt (ocs ex_early_kill 0) = 1"
  unfolding ex_early_kill_def
  by (auto simp: EXP_Rearm_def Let_def ex_posted_simps ex_posted_more oc_getlru_def)

lemma exp_thread_iter_early_kill: "exp_thread_iter (ex_early_kill, loc) now = Inl AssertFail"
proof -
  have dq: "exp_dequeue ex_early_kill = (ex_early_kill\<lparr>inbox := []\<rparr>, Some 0)"
    by (simp add: exp_dequeue_def ex_early_kill_simps)
  have ib: "exp_inbox (ex_early_kill\<lparr>inbox := []\<rparr>) 0 now = Inl AssertFail"
    by (rule exp_inbox_dying_fail) (simp_all add: ex_early_kill_simps oc_getlru_def BINHEAP_NOIDX_def)
  show ?thesis
    by (simp add: exp_thread_iter_def dq ib)
qed

text \<open>
  What \<open>EXP_Rearm\<close> does to an object with an objcore, case by case.
\<close>

lemma EXP_Rearm_cases:
  assumes "objcore (objs st o') = Some oc"
  shows "(timer_when (ocs st oc) = exp_when (objs st o') \<longrightarrow> EXP_Rearm st o' = Inr st)
   \<and> (timer_when (ocs st oc) \<noteq> exp_when (objs st o') \<and> \<not> lru_mtx (lrus st (oc_getlru st oc))
        \<and> (OC_F_OFFLRU \<in> flags (ocs st oc) \<or> oc \<in> set (lru_head (lrus st (oc_getlru st oc))))
      \<longrightarrow> (\<exists>st'. EXP_Rearm st o' = Inr st'
            \<and> flags (ocs st' oc) =
                flags (ocs st oc)
                \<union> {if exp_when (objs st o') < 0 then OC_F_DYING else OC_F_MOVE} \<union> {OC_F_OFFLRU}
            \<and> (OC_F_OFFLRU \<in> flags (ocs st oc) \<longrightarrow> inbox st' = inbox st \<and> lrus st' = lrus st)
            \<and> (OC_F_OFFLRU \<notin> flags (ocs st oc) \<longrightarrow>
                 lru_head (lrus st' (oc_getlru st oc))
                   = remove1 oc (lru_head (lrus st (oc_getlru st oc)))
                 \<and> inbox st' = (if OC_F_DYING \<in> flags (ocs st' oc) then oc # inbox st
                                else inbox st @ [oc]))
            \<and> (\<forall>x. x \<noteq> oc \<longrightarrow> ocs st' x = ocs st x)
            \<and> timer_when (ocs st' oc) = timer_when (ocs st oc)
            \<and> refcnt (ocs st' oc) = refcnt (ocs st oc)
            \<and> heap st' = heap st))
   \<and> (timer_when (ocs st oc) \<noteq> exp_when (objs st o') \<and> \<not> lru_mtx (lrus st (oc_getlru st oc))
        \<and> OC_F_OFFLRU \<notin> flags (ocs st oc) \<and> oc \<notin> set (lru_head (lrus st (oc_getlru st oc)))
      \<longrightarrow> EXP_Rearm st o' = Inl StaleLink)"
  using assms
  by (auto simp: EXP_Rearm_def Let_def exp_mail_it_def oc_getlru_def)

text \<open>
  The reference counts over an iteration of the thread that returns: the count of an
  objcore goes down by the number of times the objcore leaves the heap, and an objcore
  enters the heap only as the head of the inbox with \<open>INSERT\<close> set. \<open>EXP_Insert\<close> takes a
  reference and \<open>EXP_Inject\<close> takes none.
\<close>

lemma exp_thread_iter_balance:
  "(exp_thread_iter (st, loc) now = Inr (st', loc') \<longrightarrow>
      (\<forall>x. refcnt (ocs st' x)
             = refcnt (ocs st x) - int (count (mset (heap st)) x - count (mset (heap st')) x))
      \<and> (\<forall>x. count (mset (heap st)) x < count (mset (heap st')) x \<longrightarrow>
             inbox st = x # inbox st' \<and> OC_F_INSERT \<in> flags (ocs st x)
             \<and> count (mset (heap st')) x = count (mset (heap st)) x + 1))
   \<and> (EXP_Insert st o' now = Inr st' \<and> objcore (objs st o') = Some oc \<longrightarrow>
        refcnt (ocs st' oc) = refcnt (ocs st oc) + 1 \<and> OC_F_INSERT \<in> flags (ocs st' oc)
        \<and> oc \<in> set (inbox st') \<and> heap st' = heap st)
   \<and> (EXP_Inject st oc l w = Inr st' \<longrightarrow>
        refcnt (ocs st' oc) = refcnt (ocs st oc) \<and> OC_F_INSERT \<in> flags (ocs st' oc)
        \<and> oc \<in> set (inbox st') \<and> heap st' = heap st)"
proof (intro conjI impI)
  assume ret: "exp_thread_iter (st, loc) now = Inr (st', loc')"
  show "\<forall>x. refcnt (ocs st' x)
             = refcnt (ocs st x) - int (count (mset (heap st)) x - count (mset (heap st')) x)"
   and "\<forall>x. count (mset (heap st)) x < count (mset (heap st')) x \<longrightarrow>
             inbox st = x # inbox st' \<and> OC_F_INSERT \<in> flags (ocs st x)
             \<and> count (mset (heap st')) x = count (mset (heap st)) x + 1"
  proof -
    have "(\<forall>x. refcnt (ocs st' x)
             = refcnt (ocs st x) - int (count (mset (heap st)) x - count (mset (heap st')) x))
      \<and> (\<forall>x. count (mset (heap st)) x < count (mset (heap st')) x \<longrightarrow>
             inbox st = x # inbox st' \<and> OC_F_INSERT \<in> flags (ocs st x)
             \<and> count (mset (heap st')) x = count (mset (heap st)) x + 1)"
    proof (cases "inbox st")
      case Nil
      with ret obtain r where e: "exp_expire st now = Inr (st', r)"
        by (auto simp: exp_thread_iter_def exp_dequeue_def split: sum.splits)
      from exp_expire_cases [OF e] show ?thesis
      proof (elim disjE exE conjE)
        assume "st' = st" then show ?thesis by simp
      next
        fix oc assume "st' = oc_upd (st\<lparr>n_expired := n_expired st + 1\<rparr>) oc
                     (\<lambda>c. c\<lparr>flags := flags c \<union> {OC_F_DYING}\<rparr>)"
        then show ?thesis by simp
      next
        fix oc
        assume root: "binheap_root (heap st) = Some oc" and due: "timer_when (ocs st oc) \<le> now"
          and nb: "OC_F_BUSY \<notin> flags (ocs st oc)" and on: "OC_F_OFFLRU \<notin> flags (ocs st oc)"
        note p = exp_expire_fire_post [OF root due nb on e]
        from root have "oc \<in># mset (heap st)"
          by (auto simp: binheap_root_def split: list.splits)
        then have "count (mset (heap st)) oc \<ge> 1" by simp
        with p show ?thesis by auto
      qed
    next
      case (Cons oc rest)
      let ?s = "st\<lparr>inbox := rest\<rparr>"
      from Cons ret have e: "exp_inbox ?s oc now = Inr st'"
        by (auto simp: exp_thread_iter_def exp_dequeue_def split: sum.splits)
      then have off: "OC_F_OFFLRU \<in> flags (ocs ?s oc)"
        by (auto simp: exp_inbox_def Let_def split: if_splits)
      show ?thesis
      proof (cases "OC_F_DYING \<in> flags (ocs ?s oc)")
        case True
        note p = exp_inbox_dying_post [OF off True e]
        from p have "heap st ! (timer_idx (ocs st oc) - 1) = oc"
          "1 \<le> timer_idx (ocs st oc)" "timer_idx (ocs st oc) \<le> length (heap st)" by simp_all
        then have lt: "timer_idx (ocs st oc) - 1 < length (heap st)"
          and at: "heap st ! (timer_idx (ocs st oc) - 1) = oc" by simp_all
        have "oc \<in> set (heap st)" using nth_mem [OF lt] at by simp
        then have "count (mset (heap st)) oc \<ge> 1" by simp
        with p show ?thesis by auto
      next
        case False
        note p = exp_inbox_live_post [OF off False e]
        from p Cons show ?thesis by (auto split: if_splits)
      qed
    qed
    then show "\<forall>x. refcnt (ocs st' x)
             = refcnt (ocs st x) - int (count (mset (heap st)) x - count (mset (heap st')) x)"
      and "\<forall>x. count (mset (heap st)) x < count (mset (heap st')) x \<longrightarrow>
             inbox st = x # inbox st' \<and> OC_F_INSERT \<in> flags (ocs st x)
             \<and> count (mset (heap st')) x = count (mset (heap st)) x + 1"
      by simp_all
  qed
next
  assume "EXP_Insert st o' now = Inr st' \<and> objcore (objs st o') = Some oc"
  then show "refcnt (ocs st' oc) = refcnt (ocs st oc) + 1" "OC_F_INSERT \<in> flags (ocs st' oc)"
    "oc \<in> set (inbox st')" "heap st' = heap st"
    by (auto simp: EXP_Insert_def HSH_Ref_def Let_def exp_mail_it_def split: if_splits)
next
  assume "EXP_Inject st oc l w = Inr st'"
  then show "refcnt (ocs st' oc) = refcnt (ocs st oc)" "OC_F_INSERT \<in> flags (ocs st' oc)"
    "oc \<in> set (inbox st')" "heap st' = heap st"
    by (auto simp: EXP_Inject_def Let_def exp_mail_it_def split: if_splits)
qed

subsection \<open>The objcores in the heap\<close>

lemma binheap_insert_keeps_idx:
  assumes "timer_idx (m x) \<noteq> BINHEAP_NOIDX"
  shows "timer_idx (fst (binheap_insert m bh p) x) \<noteq> BINHEAP_NOIDX"
proof -
  let ?u = "length bh + 1"
  let ?m1 = "object_update m p ?u"
  let ?r = "binheap_trickleup ?m1 (bh @ [p]) ?u"
  have "heap_touch (set (bh @ [p])) ?m1 (fst ?r) \<and> mset (fst (snd ?r)) = mset (bh @ [p])
     \<and> 1 \<le> snd (snd ?r) \<and> snd (snd ?r) \<le> length (bh @ [p])"
    by (rule binheap_trickleup_ok) simp_all
  then have t: "heap_touch (set (bh @ [p])) ?m1 (fst ?r)" by simp
  have "timer_idx (?m1 x) \<noteq> BINHEAP_NOIDX"
    using assms by (simp add: object_update_def BINHEAP_NOIDX_def)
  with t have "timer_idx (fst ?r x) \<noteq> BINHEAP_NOIDX" by (rule heap_touch_idx)
  then show ?thesis by (simp add: binheap_insert_def Let_def)
qed

lemma binheap_delete_keeps_idx:
  assumes del: "binheap_delete m bh idx = Inr (m', bh')"
    and x: "x \<noteq> bh ! (idx - 1)" and i: "timer_idx (m x) \<noteq> BINHEAP_NOIDX"
  shows "timer_idx (m' x) \<noteq> BINHEAP_NOIDX"
proof -
  let ?m1 = "object_update m (bh ! (idx - 1)) BINHEAP_NOIDX"
  from binheap_delete_ok [OF del] have t: "heap_touch (set bh') ?m1 m'" by simp
  have "timer_idx (?m1 x) \<noteq> BINHEAP_NOIDX" using x i by (simp add: object_update_def)
  with t show ?thesis by (rule heap_touch_idx)
qed

lemma exp_inbox_live_idx:
  assumes off: "OC_F_OFFLRU \<in> flags (ocs st oc)" and dy: "OC_F_DYING \<notin> flags (ocs st oc)"
    and ret: "exp_inbox st oc now = Inr st'"
    and x: "timer_idx (ocs st x) \<noteq> BINHEAP_NOIDX"
  shows "timer_idx (ocs st' x) \<noteq> BINHEAP_NOIDX"
proof -
  let ?s = "inbox_link st oc now"
  have free: "\<not> lru_mtx (lrus st (oc_getlru st oc))"
    using ret by (auto simp: exp_inbox_def Let_def split: if_splits)
  note e = exp_inbox_live_unfold [OF off dy free, of now]
  have xs: "timer_idx (ocs ?s x) \<noteq> BINHEAP_NOIDX"
    using x by (auto simp: inbox_link_simps)
  show ?thesis
  proof (cases "OC_F_INSERT \<in> flags (ocs st oc)")
    case True
    from ret e True have i: "timer_idx (ocs st oc) = BINHEAP_NOIDX"
      by (auto split: if_splits)
    obtain m bh where ins: "binheap_insert (ocs ?s) (heap st) oc = (m, bh)"
      by (cases "binheap_insert (ocs ?s) (heap st) oc") auto
    from ret e True i ins have st': "st' = ?s\<lparr>ocs := m, heap := bh\<rparr>"
      by (auto split: if_splits)
    have "timer_idx (fst (binheap_insert (ocs ?s) (heap st) oc) x) \<noteq> BINHEAP_NOIDX"
      using xs by (rule binheap_insert_keeps_idx)
    with ins have "timer_idx (m x) \<noteq> BINHEAP_NOIDX" by simp
    then show ?thesis by (simp add: st')
  next
    case False
    from ret e False have mv: "OC_F_MOVE \<in> flags (ocs st oc)"
      and i: "timer_idx (ocs st oc) \<noteq> BINHEAP_NOIDX"
      by (auto split: if_splits)
    from ret e False mv i obtain m bh where
      re: "binheap_reorder (ocs ?s) (heap st) (timer_idx (ocs st oc)) = Inr (m, bh)"
      by (auto split: sum.splits)
    from ret e False mv i re have st': "st' = ?s\<lparr>ocs := m, heap := bh\<rparr>"
      by (auto split: if_splits)
    from binheap_reorder_ok [OF re] have "heap_touch (set (heap st)) (ocs ?s) m" by simp
    then have "timer_idx (m x) \<noteq> BINHEAP_NOIDX" using xs by (rule heap_touch_idx)
    then show ?thesis by (simp add: st')
  qed
qed

lemma exp_inbox_dying_idx:
  assumes off: "OC_F_OFFLRU \<in> flags (ocs st oc)" and dy: "OC_F_DYING \<in> flags (ocs st oc)"
    and ret: "exp_inbox st oc now = Inr st'"
    and x: "x \<noteq> oc" "timer_idx (ocs st x) \<noteq> BINHEAP_NOIDX"
  shows "timer_idx (ocs st' x) \<noteq> BINHEAP_NOIDX"
proof -
  let ?s = "inbox_mark st oc now"
  have free: "\<not> lru_mtx (lrus st (oc_getlru st oc))"
    using ret by (auto simp: exp_inbox_def Let_def split: if_splits)
  note e = exp_inbox_dying_unfold [OF off dy free, of now]
  from ret e have i: "timer_idx (ocs st oc) \<noteq> BINHEAP_NOIDX"
    by (auto split: if_splits)
  from ret e i obtain m bh where
    del: "binheap_delete (ocs ?s) (heap st) (timer_idx (ocs st oc)) = Inr (m, bh)"
    by (auto split: sum.splits)
  from ret e i del have st': "st' = HSH_DerefObjCore (?s\<lparr>ocs := m, heap := bh\<rparr>) oc"
    by (auto split: if_splits)
  from exp_inbox_dying_post [OF off dy ret]
  have at: "heap st ! (timer_idx (ocs st oc) - 1) = oc" by simp
  have xs: "timer_idx (ocs ?s x) \<noteq> BINHEAP_NOIDX" using x by (simp add: inbox_mark_simps)
  have "timer_idx (m x) \<noteq> BINHEAP_NOIDX"
    using del _ xs by (rule binheap_delete_keeps_idx) (use at x in simp)
  then show ?thesis using x by (simp add: st' HSH_DerefObjCore_def)
qed

lemma exp_expire_fire_idx:
  assumes root: "binheap_root (heap st) = Some oc" and due: "timer_when (ocs st oc) \<le> now"
    and nb: "OC_F_BUSY \<notin> flags (ocs st oc)" and on: "OC_F_OFFLRU \<notin> flags (ocs st oc)"
    and ret: "exp_expire st now = Inr (st', r)"
    and x: "x \<noteq> oc" "timer_idx (ocs st x) \<noteq> BINHEAP_NOIDX"
  shows "timer_idx (ocs st' x) \<noteq> BINHEAP_NOIDX"
proof -
  define st4 where "st4 = lru_upd (oc_upd (oc_upd (st\<lparr>n_expired := n_expired st + 1\<rparr>) oc
                        (\<lambda>c. c\<lparr>flags := flags c \<union> {OC_F_DYING}\<rparr>)) oc
                        (\<lambda>c. c\<lparr>flags := flags c \<union> {OC_F_OFFLRU}\<rparr>))
                     (oc_getlru st oc) (\<lambda>r. r\<lparr>lru_head := remove1 oc (lru_head r)\<rparr>)"
  have free: "\<not> lru_mtx (lrus st (oc_getlru st oc))"
    using root due nb on ret by (auto simp: exp_expire_def Let_def oc_getlru_def split: if_splits)
  note e = exp_expire_fire_unfold [OF root due nb on free, folded st4_def]
  from ret e have i: "timer_idx (ocs st4 oc) \<noteq> BINHEAP_NOIDX"
    by (auto split: if_splits)
  from ret e i obtain m bh where
    del: "binheap_delete (ocs st4) (heap st4) (timer_idx (ocs st4 oc)) = Inr (m, bh)"
    by (auto split: sum.splits)
  from ret e i del have i': "timer_idx (m oc) = BINHEAP_NOIDX"
    and st': "st' = HSH_DerefObjCore (st4\<lparr>ocs := m, heap := bh\<rparr>) oc"
    by (auto split: if_splits)
  have at: "heap st4 ! (timer_idx (ocs st4 oc) - 1) = oc"
    using del i i' by (rule binheap_delete_assert)
  have xs: "timer_idx (ocs st4 x) \<noteq> BINHEAP_NOIDX" using x by (simp add: st4_def)
  have "timer_idx (m x) \<noteq> BINHEAP_NOIDX"
    using del _ xs by (rule binheap_delete_keeps_idx) (use at x in simp)
  then show ?thesis using x by (simp add: st' HSH_DerefObjCore_def)
qed

lemma heap_inv_init: "heap st = [] \<Longrightarrow> heap_inv st"
  by (simp add: heap_inv_def)

lemma heap_inv_env:
  assumes "heap_inv st" "env_step st st'"
  shows "heap_inv st'"
proof -
  have f: "OC_F_OFFLRU \<in> flags (ocs st' x) \<longleftrightarrow> OC_F_OFFLRU \<in> flags (ocs st x)" for x
  proof -
    from assms(2) have "flags (ocs st' x) - {OC_F_BUSY} = flags (ocs st x) - {OC_F_BUSY}"
      by (simp add: env_step_def)
    then show ?thesis by blast
  qed
  from assms show ?thesis
    by (simp add: heap_inv_def env_step_def f)
qed

text \<open>
  A step that leaves the heap and the heap indices alone, sets \<open>OFFLRU\<close> on at most
  the objcore \<open>oc\<close> and takes at most that objcore off an LRU list.
\<close>

lemma heap_inv_unlink:
  assumes inv: "heap_inv st"
    and h: "heap st' = heap st"
    and i: "\<And>x. timer_idx (ocs st' x) = timer_idx (ocs st x)"
    and l: "\<And>x. oc_lru (ocs st' x) = oc_lru (ocs st x)"
    and f: "\<And>x. x \<noteq> oc \<Longrightarrow> OC_F_OFFLRU \<notin> flags (ocs st' x) \<Longrightarrow> OC_F_OFFLRU \<notin> flags (ocs st x)"
    and o: "OC_F_OFFLRU \<in> flags (ocs st' oc) \<or> st' = st"
    and s: "\<And>x k. x \<noteq> oc \<Longrightarrow> x \<in> set (lru_head (lrus st k)) \<Longrightarrow> x \<in> set (lru_head (lrus st' k))"
  shows "heap_inv st'"
proof (cases "st' = st")
  case True with inv show ?thesis by simp
next
  case False
  with o have off: "OC_F_OFFLRU \<in> flags (ocs st' oc)" by simp
  show ?thesis
    unfolding heap_inv_def h
  proof (intro conjI ballI impI)
    from inv show "distinct (heap st)" by (simp add: heap_inv_def)
  next
    fix x assume "x \<in> set (heap st)"
    with inv show "timer_idx (ocs st' x) \<noteq> BINHEAP_NOIDX" by (simp add: heap_inv_def i)
  next
    fix x assume x: "x \<in> set (heap st)" and n: "OC_F_OFFLRU \<notin> flags (ocs st' x)"
    with off have ne: "x \<noteq> oc" by auto
    from ne n have "OC_F_OFFLRU \<notin> flags (ocs st x)" by (rule f)
    with inv x have "x \<in> set (lru_head (lrus st (oc_lru (ocs st x))))" by (simp add: heap_inv_def)
    with ne have "x \<in> set (lru_head (lrus st' (oc_lru (ocs st x))))" by (rule s)
    then show "x \<in> set (lru_head (lrus st' (oc_lru (ocs st' x))))" by (simp add: l)
  qed
qed

lemma heap_inv_Inject:
  assumes "heap_inv st" "EXP_Inject st oc l w = Inr st'"
  shows "heap_inv st'"
  using assms(1)
proof (rule heap_inv_unlink [where oc = oc])
  from assms(2) show "OC_F_OFFLRU \<in> flags (ocs st' oc) \<or> st' = st"
    by (auto simp: EXP_Inject_def Let_def exp_mail_it_def split: if_splits)
qed (use assms(2) in \<open>auto simp: EXP_Inject_def Let_def exp_mail_it_def split: if_splits\<close>)

lemma heap_inv_Insert:
  assumes "heap_inv st" "EXP_Insert st o' now = Inr st'" "objcore (objs st o') = Some oc"
  shows "heap_inv st'"
  using assms(1)
proof (rule heap_inv_unlink [where oc = oc])
  from assms(2,3) show "OC_F_OFFLRU \<in> flags (ocs st' oc) \<or> st' = st"
    by (auto simp: EXP_Insert_def HSH_Ref_def oc_getlru_def Let_def exp_mail_it_def split: if_splits)
qed (use assms(2,3) in \<open>auto simp: EXP_Insert_def HSH_Ref_def oc_getlru_def Let_def exp_mail_it_def
       split: if_splits\<close>)

lemma heap_inv_Touch:
  assumes inv: "heap_inv st" and t: "EXP_Touch st oc = (Inr st', r)"
  shows "heap_inv st'"
proof -
  from EXP_Touch_cases [OF t] show ?thesis
  proof (elim disjE conjE)
    assume "st' = st" with inv show ?thesis by simp
  next
    let ?l = "oc_getlru st oc"
    assume mem: "oc \<in> set (lru_head (lrus st ?l))"
      and st': "st' = (lru_upd st ?l (\<lambda>r. r\<lparr>lru_head := remove1 oc (lru_head r) @ [oc]\<rparr>))
                  \<lparr>n_lru_moved := n_lru_moved st + 1\<rparr>"
    have h: "lru_head (lrus st' l) = (if l = ?l then remove1 oc (lru_head (lrus st ?l)) @ [oc]
                                        else lru_head (lrus st l))" for l
      by (simp add: st')
    have s: "set (lru_head (lrus st' l)) = set (lru_head (lrus st l))" for l
      using mem by (simp add: h set_move_last del: set_append)
    have o: "ocs st' = ocs st" "heap st' = heap st" by (simp_all add: st')
    from inv show ?thesis
      unfolding heap_inv_def s o by simp
  qed
qed

lemma heap_inv_Rearm:
  assumes inv: "heap_inv st" and r: "EXP_Rearm st o' = Inr st'"
  shows "heap_inv st'"
proof -
  from EXP_Rearm_result [OF r] show ?thesis
  proof (elim disjE exE conjE)
    assume "st' = st" with inv show ?thesis by simp
  next
    fix oc f
    assume "OC_F_OFFLRU \<in> flags (ocs st oc)"
      and "st' = oc_upd st oc (\<lambda>c. c\<lparr>flags := flags c \<union> {f}\<rparr>)"
    then show ?thesis
      by (intro heap_inv_unlink [OF inv, where oc = oc]) auto
  next
    fix oc f s
    assume s: "s = lru_upd (oc_upd st oc (\<lambda>c. c\<lparr>flags := flags c \<union> {f, OC_F_OFFLRU}\<rparr>))
                        (oc_getlru st oc) (\<lambda>r. r\<lparr>lru_head := remove1 oc (lru_head r)\<rparr>)"
      and st': "st' = s\<lparr>inbox := (if OC_F_DYING \<in> flags (ocs s oc) then oc # inbox st
                                      else inbox st @ [oc])\<rparr>"
    show ?thesis
      by (intro heap_inv_unlink [OF inv, where oc = oc]) (auto simp: st' s)
  qed
qed

lemma heap_inv_NukeOne:
  assumes inv: "heap_inv st" and ret: "EXP_NukeOne st l = Inr (st', r)"
  shows "heap_inv st'"
proof -
  from ret obtain st1 q where loop: "nuke_loop st l (lru_head (lrus st l)) = Inr (st1, q)"
    by (auto simp: EXP_NukeOne_def split: if_splits sum.splits)
  from nuke_loop_result [OF loop] show ?thesis
  proof
    assume "q = None \<and> st1 = st"
    with ret loop inv show ?thesis
      by (auto simp: EXP_NukeOne_def split: if_splits)
  next
    assume "\<exists>oc. q = Some oc \<and> oc \<in> set (lru_head (lrus st l)) \<and> refcnt (ocs st oc) = 1
         \<and> st1 = lru_upd ((oc_upd (oc_upd st oc (\<lambda>c. c\<lparr>flags := flags c \<union> {OC_F_DYING, OC_F_OFFLRU}\<rparr>)) oc
                      (\<lambda>c. c\<lparr>refcnt := refcnt c + 1\<rparr>))\<lparr>n_lru_nuked := n_lru_nuked st + 1\<rparr>) l
            (\<lambda>r. r\<lparr>lru_head := remove1 oc (lru_head r)\<rparr>)"
    then obtain oc where q: "q = Some oc"
      and st1: "st1 = lru_upd ((oc_upd (oc_upd st oc (\<lambda>c. c\<lparr>flags := flags c \<union> {OC_F_DYING, OC_F_OFFLRU}\<rparr>)) oc
                      (\<lambda>c. c\<lparr>refcnt := refcnt c + 1\<rparr>))\<lparr>n_lru_nuked := n_lru_nuked st + 1\<rparr>) l
            (\<lambda>r. r\<lparr>lru_head := remove1 oc (lru_head r)\<rparr>)"
      by blast
    from ret loop q have st': "st' = HSH_DerefObjCore (st1\<lparr>inbox := oc # inbox st1\<rparr>) oc"
      by (auto simp: EXP_NukeOne_def exp_mail_it_def st1 split: if_splits)
    show ?thesis
      by (intro heap_inv_unlink [OF inv, where oc = oc]) (auto simp: st' st1 HSH_DerefObjCore_def)
  qed
qed

lemma distinct_mset_same:
  assumes "distinct xs" "mset ys = mset xs"
  shows "distinct ys \<and> set ys = set xs"
proof -
  from assms(2) have "distinct ys \<longleftrightarrow> distinct xs" by (rule mset_eq_imp_distinct_iff)
  moreover from assms(2) have "set ys = set xs" by (rule mset_eq_setD)
  ultimately show ?thesis using assms(1) by simp
qed

lemma distinct_mset_add:
  assumes "distinct xs" "a \<notin> set xs" "mset ys = add_mset a (mset xs)"
  shows "distinct ys \<and> set ys = insert a (set xs)"
proof -
  have "mset ys = mset (a # xs)" using assms(3) by simp
  moreover have "distinct (a # xs)" using assms by simp
  ultimately have "distinct ys \<and> set ys = set (a # xs)" by (intro distinct_mset_same)
  then show ?thesis by simp
qed

lemma distinct_mset_remove:
  assumes "distinct xs" "mset ys = mset xs - {#a#}"
  shows "distinct ys \<and> a \<notin> set ys \<and> set ys \<subseteq> set xs"
proof (cases "a \<in> set xs")
  case True
  then have "mset xs = add_mset a (mset xs - {#a#})" by simp
  then have "mset xs = mset (a # ys)" using assms(2) by simp
  then have "mset (a # ys) = mset xs" by (rule sym)
  with assms(1) have "distinct (a # ys) \<and> set (a # ys) = set xs" by (rule distinct_mset_same)
  then show ?thesis by auto
next
  case False
  then have "mset ys = mset xs" using assms(2) by simp
  with assms(1) have "distinct ys \<and> set ys = set xs" by (rule distinct_mset_same)
  with False show ?thesis by simp
qed

lemma heap_inv_expire:
  assumes inv: "heap_inv st" and ret: "exp_expire st now = Inr (st', r)"
  shows "heap_inv st'"
  using exp_expire_cases [OF ret]
proof (elim disjE exE conjE)
  assume "st' = st"
  with inv show ?thesis by simp
next
  fix oc
  assume "OC_F_OFFLRU \<in> flags (ocs st oc)"
    and "st' = oc_upd (st\<lparr>n_expired := n_expired st + 1\<rparr>) oc
                     (\<lambda>c. c\<lparr>flags := flags c \<union> {OC_F_DYING}\<rparr>)"
  then show ?thesis
    by (intro heap_inv_unlink [OF inv, where oc = oc]) auto
next
  fix oc
  assume root: "binheap_root (heap st) = Some oc" and due: "timer_when (ocs st oc) \<le> now"
    and nb: "OC_F_BUSY \<notin> flags (ocs st oc)" and on: "OC_F_OFFLRU \<notin> flags (ocs st oc)"
  note p = exp_expire_fire_post [OF root due nb on ret]
  note i = exp_expire_fire_idx [OF root due nb on ret]
  from inv have d: "distinct (heap st)" by (simp add: heap_inv_def)
  from p have ms: "mset (heap st') = mset (heap st) - {#oc#}" by simp
  from distinct_mset_remove [OF d ms]
  have d': "distinct (heap st')" and n: "oc \<notin> set (heap st')" and sub: "set (heap st') \<subseteq> set (heap st)"
    by simp_all
  show ?thesis
    unfolding heap_inv_def
  proof (intro conjI ballI impI)
    show "distinct (heap st')" by (rule d')
  next
    fix x assume x: "x \<in> set (heap st')"
    with n have ne: "x \<noteq> oc" by auto
    from x sub inv have "timer_idx (ocs st x) \<noteq> BINHEAP_NOIDX" by (auto simp: heap_inv_def)
    with ne show "timer_idx (ocs st' x) \<noteq> BINHEAP_NOIDX" by (rule i)
  next
    fix x assume x: "x \<in> set (heap st')" and off: "OC_F_OFFLRU \<notin> flags (ocs st' x)"
    with n have ne: "x \<noteq> oc" by auto
    from p ne have fl: "flags (ocs st' x) = flags (ocs st x)" by simp
    from p have ol: "oc_lru (ocs st' x) = oc_lru (ocs st x)" by simp
    from x sub inv off fl have m: "x \<in> set (lru_head (lrus st (oc_lru (ocs st x))))"
      by (auto simp: heap_inv_def)
    have "x \<in> set (lru_head (lrus st' (oc_lru (ocs st x))))"
    proof (cases "oc_lru (ocs st x) = oc_getlru st oc")
      case True
      from p have "lru_head (lrus st' (oc_getlru st oc)) = remove1 oc (lru_head (lrus st (oc_getlru st oc)))"
        by simp
      with True m ne show ?thesis by simp
    next
      case False
      with p have "lrus st' (oc_lru (ocs st x)) = lrus st (oc_lru (ocs st x))" by simp
      with m show ?thesis by simp
    qed
    then show "x \<in> set (lru_head (lrus st' (oc_lru (ocs st' x))))" by (simp add: ol)
  qed
qed

lemma heap_inv_inbox:
  assumes inv: "heap_inv st" and ret: "exp_inbox st oc now = Inr st'"
  shows "heap_inv st'"
proof -
  from ret have off: "OC_F_OFFLRU \<in> flags (ocs st oc)"
    by (auto simp: exp_inbox_def Let_def split: if_splits)
  from inv have d: "distinct (heap st)" by (simp add: heap_inv_def)
  show ?thesis
  proof (cases "OC_F_DYING \<in> flags (ocs st oc)")
    case True
    note p = exp_inbox_dying_post [OF off True ret]
    note i = exp_inbox_dying_idx [OF off True ret]
    from p have ms: "mset (heap st') = mset (heap st) - {#oc#}" by simp
    from distinct_mset_remove [OF d ms]
    have d': "distinct (heap st')" and n: "oc \<notin> set (heap st')" and sub: "set (heap st') \<subseteq> set (heap st)"
      by simp_all
    show ?thesis
      unfolding heap_inv_def
    proof (intro conjI ballI impI)
      show "distinct (heap st')" by (rule d')
    next
      fix x assume x: "x \<in> set (heap st')"
      with n have ne: "x \<noteq> oc" by auto
      from x sub inv have "timer_idx (ocs st x) \<noteq> BINHEAP_NOIDX" by (auto simp: heap_inv_def)
      with ne show "timer_idx (ocs st' x) \<noteq> BINHEAP_NOIDX" by (rule i)
    next
      fix x assume x: "x \<in> set (heap st')" and o: "OC_F_OFFLRU \<notin> flags (ocs st' x)"
      with n have ne: "x \<noteq> oc" by auto
      from p ne have fl: "flags (ocs st' x) = flags (ocs st x)" by simp
      from p have ol: "oc_lru (ocs st' x) = oc_lru (ocs st x)" and lr: "lrus st' = lrus st" by simp_all
      from x sub inv o fl have "x \<in> set (lru_head (lrus st (oc_lru (ocs st x))))"
        by (auto simp: heap_inv_def)
      then show "x \<in> set (lru_head (lrus st' (oc_lru (ocs st' x))))" by (simp add: ol lr)
    qed
  next
    case False
    note p = exp_inbox_live_post [OF off False ret]
    note i = exp_inbox_live_idx [OF off False ret]
    have lh: "lru_head (lrus st' k) = (if k = oc_getlru st oc then lru_head (lrus st k) @ [oc]
                                         else lru_head (lrus st k))" for k
      using p by simp
    have hp: "distinct (heap st') \<and> set (heap st') \<subseteq> insert oc (set (heap st))"
    proof (cases "OC_F_INSERT \<in> flags (ocs st oc)")
      case True
      with p have ni: "timer_idx (ocs st oc) = BINHEAP_NOIDX"
        and ms: "mset (heap st') = add_mset oc (mset (heap st))" by simp_all
      from ni inv have "oc \<notin> set (heap st)" by (auto simp: heap_inv_def)
      from distinct_mset_add [OF d this ms] show ?thesis by simp
    next
      case False
      with p have "mset (heap st') = mset (heap st)" by simp
      from distinct_mset_same [OF d this] show ?thesis by auto
    qed
    show ?thesis
      unfolding heap_inv_def
    proof (intro conjI ballI impI)
      from hp show "distinct (heap st')" by simp
    next
      fix x assume x: "x \<in> set (heap st')"
      show "timer_idx (ocs st' x) \<noteq> BINHEAP_NOIDX"
      proof (cases "x = oc")
        case True with p show ?thesis by simp
      next
        case False
        with x hp have "x \<in> set (heap st)" by auto
        with inv have "timer_idx (ocs st x) \<noteq> BINHEAP_NOIDX" by (simp add: heap_inv_def)
        then show ?thesis by (rule i)
      qed
    next
      fix x assume x: "x \<in> set (heap st')" and o: "OC_F_OFFLRU \<notin> flags (ocs st' x)"
      from p have ol: "oc_lru (ocs st' x) = oc_lru (ocs st x)" by simp
      have "x \<in> set (lru_head (lrus st' (oc_lru (ocs st x))))"
      proof (cases "x = oc")
        case True
        then show ?thesis by (simp add: lh oc_getlru_def)
      next
        case False
        with x hp have xin: "x \<in> set (heap st)" by auto
        from p False have "flags (ocs st' x) = flags (ocs st x)" by simp
        with o xin inv have "x \<in> set (lru_head (lrus st (oc_lru (ocs st x))))"
          by (simp add: heap_inv_def)
        then show ?thesis by (auto simp: lh)
      qed
      then show "x \<in> set (lru_head (lrus st' (oc_lru (ocs st' x))))" by (simp add: ol)
    qed
  qed
qed

lemma heap_inv_thread:
  assumes inv: "heap_inv st" and ret: "exp_thread_iter (st, loc) now = Inr (st', loc')"
  shows "heap_inv st'"
proof (cases "inbox st")
  case Nil
  with ret obtain r where "exp_expire st now = Inr (st', r)"
    by (auto simp: exp_thread_iter_def exp_dequeue_def split: sum.splits)
  with inv show ?thesis by (rule heap_inv_expire)
next
  case (Cons oc rest)
  with ret have "exp_inbox (st\<lparr>inbox := rest\<rparr>) oc now = Inr st'"
    by (auto simp: exp_thread_iter_def exp_dequeue_def split: sum.splits)
  moreover from inv have "heap_inv (st\<lparr>inbox := rest\<rparr>)" by (simp add: heap_inv_def)
  ultimately show ?thesis by (rule heap_inv_inbox [rotated])
qed

lemma reach_heap_inv: "reach st \<Longrightarrow> heap_inv st"
proof (induction rule: reach.induct)
  case (reach_init st)
  then show ?case by (simp add: heap_inv_init)
next
  case (reach_env st st')
  then show ?case using heap_inv_env by blast
next
  case (reach_Inject st oc l w st')
  then show ?case using heap_inv_Inject by blast
next
  case (reach_Insert st o' oc now st')
  then show ?case using heap_inv_Insert by blast
next
  case (reach_Touch st oc st' r)
  then show ?case using heap_inv_Touch by blast
next
  case (reach_Rearm st o' st')
  then show ?case using heap_inv_Rearm by blast
next
  case (reach_NukeOne st l st' r)
  then show ?case using heap_inv_NukeOne by blast
next
  case (reach_thread st loc now st' loc')
  then show ?case using heap_inv_thread by blast
qed

text \<open>
  In a reachable state the objcore \<open>exp_expire\<close> unlinks, the root of the heap with
  \<open>OFFLRU\<close> clear, is on its LRU list.
\<close>

lemma reach_root_linked:
  assumes "reach st" "binheap_root (heap st) = Some oc" "OC_F_OFFLRU \<notin> flags (ocs st oc)"
  shows "oc \<in> set (lru_head (lrus st (oc_getlru st oc)))"
proof -
  from assms(2) have "oc \<in> set (heap st)"
    by (auto simp: binheap_root_def split: list.splits)
  with reach_heap_inv [OF assms(1)] assms(3) show ?thesis
    by (simp add: heap_inv_def oc_getlru_def)
qed

section \<open>The claims\<close>

text \<open>
  C1. The expiry never fires early. When the root of the heap has \<open>timer_when > now\<close>,
  \<open>exp_expire\<close> returns that \<open>timer_when\<close> and the state is unchanged; and whenever a call
  of \<open>exp_expire\<close> does anything else than return with the state unchanged (it charges
  \<open>n_expired\<close>, marks the root \<open>DYING\<close>, deletes it from the heap, or stops), the heap has
  a root whose \<open>timer_when\<close> is at most \<open>now\<close>.
\<close>

theorem exp_expire_never_early:
  "(binheap_root (heap st) = Some oc \<and> now < timer_when (ocs st oc)
      \<longrightarrow> exp_expire st now = Inr (st, timer_when (ocs st oc)))
   \<and> ((\<forall>r. exp_expire st now \<noteq> Inr (st, r))
      \<longrightarrow> (\<exists>oc. binheap_root (heap st) = Some oc \<and> timer_when (ocs st oc) \<le> now))"
  by (auto simp: exp_expire_def split: option.splits)

theorem exp_expire_never_early_witness:
  "exp_expire ex_resident 109.999 = Inr (ex_resident, 110)
   \<and> (\<forall>r. exp_expire ex_resident 110.001 \<noteq> Inr (ex_resident, r))
   \<and> binheap_root (heap ex_resident) = Some 0 \<and> timer_when (ocs ex_resident 0) \<le> 110.001"
proof -
  have root: "binheap_root (heap ex_resident) = Some 0"
    by (simp add: binheap_root_def ex_resident_simps)
  have a: "exp_expire ex_resident 109.999 = Inr (ex_resident, 110)"
    using exp_expire_never_early [of ex_resident 0 "109.999"] root
    by (simp add: ex_resident_simps)
  obtain st' where f: "exp_expire ex_resident 110.001 = Inr (st', 0)"
    using exp_expire_fire [of ex_resident 0 "110.001"] root
    by (auto simp: ex_resident_simps ROOT_IDX_def)
  then have "n_expired st' = n_expired ex_resident + 1"
    using exp_expire_fire_post [of ex_resident 0 "110.001" st' 0] root
    by (simp add: ex_resident_simps)
  with f have b: "\<forall>r. exp_expire ex_resident 110.001 \<noteq> Inr (ex_resident, r)"
    by auto
  from exp_expire_never_early [of ex_resident 0 "110.001"] a b root show ?thesis
    by (simp add: ex_resident_simps)
qed

text \<open>
  C2. For an objcore taken from the inbox, \<open>exp_inbox\<close> clears the action flags, sets
  \<open>last_lru\<close> and links the objcore iff it is not \<open>DYING\<close>; a \<open>DYING\<close> objcore is to be
  deleted from the heap if it is there and its reference dropped. The code does not
  do the latter for an objcore that is \<open>DYING\<close> before it has entered the heap:
  \<open>EXP_Inject\<close> posts objcore 0 with \<open>INSERT\<close>, \<open>EXP_Rearm\<close> with a negative wake time adds
  \<open>DYING\<close> while the mail is pending, and the next iteration of the thread takes the
  objcore from the inbox and stops on the failed assertion \<open>timer_idx != BINHEAP_NOIDX\<close>
  instead of dropping the reference.
\<close>

theorem exp_inbox_early_kill_aborts:
  "EXP_Inject ex_cleared 0 0 110 = Inr ex_posted
   \<and> EXP_Rearm ex_posted 0 = Inr ex_early_kill
   \<and> exp_dequeue ex_early_kill = (ex_early_kill\<lparr>inbox := []\<rparr>, Some 0)
   \<and> flags (ocs (ex_early_kill\<lparr>inbox := []\<rparr>) 0) = {OC_F_OFFLRU, OC_F_INSERT, OC_F_DYING}
   \<and> timer_idx (ocs (ex_early_kill\<lparr>inbox := []\<rparr>) 0) = BINHEAP_NOIDX
   \<and> heap (ex_early_kill\<lparr>inbox := []\<rparr>) = []
   \<and> exp_inbox (ex_early_kill\<lparr>inbox := []\<rparr>) 0 111 = Inl AssertFail
   \<and> exp_thread_iter (ex_early_kill, ex_locals) 111 = Inl AssertFail"
proof -
  have dq: "exp_dequeue ex_early_kill = (ex_early_kill\<lparr>inbox := []\<rparr>, Some 0)"
    by (simp add: exp_dequeue_def ex_early_kill_simps)
  have ib: "exp_inbox (ex_early_kill\<lparr>inbox := []\<rparr>) 0 111 = Inl AssertFail"
    by (rule exp_inbox_dying_fail) (simp_all add: ex_early_kill_simps oc_getlru_def BINHEAP_NOIDX_def)
  have "exp_thread_iter (ex_early_kill, ex_locals) 111 = Inl AssertFail"
    by (simp add: exp_thread_iter_def dq ib)
  with dq ib show ?thesis
    by (simp add: ex_posted_run ex_early_kill_run ex_early_kill_simps)
qed

text \<open>
  C3. The value \<open>exp_expire\<close> returns: \<open>now + 355/113\<close> on an empty heap; the root's
  \<open>timer_when\<close> when that exceeds \<open>now\<close>; \<open>now + 0.01\<close> when the root is due but
  \<open>BUSY\<close>; \<open>now + 0.001\<close> when the root is due, not \<open>BUSY\<close> and already \<open>OFFLRU\<close>;
  and when the root is due, not \<open>BUSY\<close> and still on its LRU list, every return is the
  value \<open>0\<close>, with the root unlinked from the LRU list, deleted from the heap and
  dereferenced once; the call does return when the root carries the root index and the
  heap holds no objcore twice. (Where the function takes the LRU mutex, the mutex is
  free.)
\<close>

theorem exp_expire_returns:
  "(binheap_root (heap st) = None \<longrightarrow> exp_expire st now = Inr (st, now + 355 / 113))
   \<and> (binheap_root (heap st) = Some oc \<and> now < timer_when (ocs st oc)
        \<longrightarrow> exp_expire st now = Inr (st, timer_when (ocs st oc)))
   \<and> (binheap_root (heap st) = Some oc \<and> timer_when (ocs st oc) \<le> now
        \<and> OC_F_BUSY \<in> flags (ocs st oc)
        \<longrightarrow> exp_expire st now = Inr (st, now + 0.01))
   \<and> (binheap_root (heap st) = Some oc \<and> timer_when (ocs st oc) \<le> now
        \<and> OC_F_BUSY \<notin> flags (ocs st oc) \<and> OC_F_OFFLRU \<in> flags (ocs st oc)
        \<and> \<not> lru_mtx (lrus st (oc_getlru st oc))
        \<longrightarrow> (\<exists>st'. exp_expire st now = Inr (st', now + 0.001)))
   \<and> (binheap_root (heap st) = Some oc \<and> timer_when (ocs st oc) \<le> now
        \<and> OC_F_BUSY \<notin> flags (ocs st oc) \<and> OC_F_OFFLRU \<notin> flags (ocs st oc)
        \<longrightarrow> (\<forall>st' r. exp_expire st now = Inr (st', r) \<longrightarrow>
               r = 0
               \<and> lru_head (lrus st' (oc_getlru st oc)) = remove1 oc (lru_head (lrus st (oc_getlru st oc)))
               \<and> mset (heap st') = mset (heap st) - {#oc#}
               \<and> refcnt (ocs st' oc) = refcnt (ocs st oc) - 1)
          \<and> (\<not> lru_mtx (lrus st (oc_getlru st oc)) \<and> timer_idx (ocs st oc) = ROOT_IDX
               \<and> distinct (heap st)
               \<longrightarrow> (\<exists>st'. exp_expire st now = Inr (st', 0))))"
proof (intro conjI impI allI)
  assume "binheap_root (heap st) = None"
  then show "exp_expire st now = Inr (st, now + 355 / 113)"
    by (simp add: exp_expire_def)
next
  assume "binheap_root (heap st) = Some oc \<and> now < timer_when (ocs st oc)"
  then show "exp_expire st now = Inr (st, timer_when (ocs st oc))"
    by (simp add: exp_expire_def)
next
  assume "binheap_root (heap st) = Some oc \<and> timer_when (ocs st oc) \<le> now
    \<and> OC_F_BUSY \<in> flags (ocs st oc)"
  then show "exp_expire st now = Inr (st, now + 0.01)"
    by (simp add: exp_expire_def)
next
  assume "binheap_root (heap st) = Some oc \<and> timer_when (ocs st oc) \<le> now
    \<and> OC_F_BUSY \<notin> flags (ocs st oc) \<and> OC_F_OFFLRU \<in> flags (ocs st oc)
    \<and> \<not> lru_mtx (lrus st (oc_getlru st oc))"
  then show "\<exists>st'. exp_expire st now = Inr (st', now + 0.001)"
    by (simp add: exp_expire_yield)
next
  fix st' r
  assume a: "binheap_root (heap st) = Some oc \<and> timer_when (ocs st oc) \<le> now
    \<and> OC_F_BUSY \<notin> flags (ocs st oc) \<and> OC_F_OFFLRU \<notin> flags (ocs st oc)"
    and ret: "exp_expire st now = Inr (st', r)"
  from a ret have p: "r = 0 \<and> n_expired st' = n_expired st + 1
     \<and> flags (ocs st' oc) = flags (ocs st oc) \<union> {OC_F_DYING, OC_F_OFFLRU}
     \<and> lru_head (lrus st' (oc_getlru st oc)) = remove1 oc (lru_head (lrus st (oc_getlru st oc)))
     \<and> heap st ! (timer_idx (ocs st oc) - 1) = oc
     \<and> mset (heap st') = mset (heap st) - {#oc#}
     \<and> timer_idx (ocs st' oc) = BINHEAP_NOIDX
     \<and> refcnt (ocs st' oc) = refcnt (ocs st oc) - 1
     \<and> (\<forall>x. x \<noteq> oc \<longrightarrow> refcnt (ocs st' x) = refcnt (ocs st x) \<and> flags (ocs st' x) = flags (ocs st x))
     \<and> inbox st' = inbox st
     \<and> (\<forall>l'. l' \<noteq> oc_getlru st oc \<longrightarrow> lrus st' l' = lrus st l')
     \<and> (\<forall>x. oc_lru (ocs st' x) = oc_lru (ocs st x))"
    using exp_expire_fire_post [of st oc now st' r] by blast
  from p show "r = 0" by simp
  from p show "lru_head (lrus st' (oc_getlru st oc)) = remove1 oc (lru_head (lrus st (oc_getlru st oc)))"
    by simp
  from p show "mset (heap st') = mset (heap st) - {#oc#}" by simp
  from p show "refcnt (ocs st' oc) = refcnt (ocs st oc) - 1" by simp
next
  assume a: "binheap_root (heap st) = Some oc \<and> timer_when (ocs st oc) \<le> now
    \<and> OC_F_BUSY \<notin> flags (ocs st oc) \<and> OC_F_OFFLRU \<notin> flags (ocs st oc)"
    and b: "\<not> lru_mtx (lrus st (oc_getlru st oc)) \<and> timer_idx (ocs st oc) = ROOT_IDX
               \<and> distinct (heap st)"
  from a b show "\<exists>st'. exp_expire st now = Inr (st', 0)"
    using exp_expire_fire [of st oc now] by blast
qed

theorem exp_expire_returns_witness:
  "exp_expire cache_init 100 = Inr (cache_init, 100 + 355 / 113)
   \<and> exp_expire ex_resident 109.999 = Inr (ex_resident, 110)
   \<and> exp_expire ex_busy 111 = Inr (ex_busy, 111.01)
   \<and> (\<exists>st'. exp_expire ex_claimed 111 = Inr (st', 111.001))
   \<and> (\<exists>st'. exp_expire ex_resident 111 = Inr (st', 0))"
proof -
  have a: "exp_expire cache_init 100 = Inr (cache_init, 100 + 355 / 113)"
    using exp_expire_returns [of cache_init 100 0]
    by (simp add: binheap_root_def cache_init_def)
  have b: "exp_expire ex_resident 109.999 = Inr (ex_resident, 110)"
    using exp_expire_returns [of ex_resident "109.999" 0]
    by (simp add: binheap_root_def ex_resident_simps)
  have c: "exp_expire ex_busy 111 = Inr (ex_busy, 111.01)"
    using exp_expire_returns [of ex_busy 111 0]
    by (simp add: binheap_root_def ex_busy_simps)
  have d: "\<exists>st'. exp_expire ex_claimed 111 = Inr (st', 111.001)"
    using exp_expire_returns [of ex_claimed 111 0]
    by (simp add: binheap_root_def ex_claimed_simps)
  have e: "\<exists>st'. exp_expire ex_resident 111 = Inr (st', 0)"
    using exp_expire_returns [of ex_resident 111 0]
    by (simp add: binheap_root_def ex_resident_simps ROOT_IDX_def)
  from a b c d e show ?thesis by blast
qed




text \<open>
  C6, as the claim states it, fails: with the lock acquired and \<open>OFFLRU\<close> set on the objcore,
  \<open>EXP_Touch\<close> moves nothing and returns 1.
\<close>

theorem EXP_Touch_return_counterexample:
  "\<not> lru_dontmove (lrus ex_claimed (oc_getlru ex_claimed 0))
   \<and> \<not> lru_mtx (lrus ex_claimed (oc_getlru ex_claimed 0))
   \<and> OC_F_OFFLRU \<in> flags (ocs ex_claimed 0)
   \<and> EXP_Touch ex_claimed 0 = (Inr ex_claimed, 1)"
  by (simp add: EXP_Touch_def Let_def ex_claimed_simps)
     (simp add: ex_claimed_def ex_resident_def cache_init_def lru_init_def)

text \<open>
  C6, amended. \<open>EXP_Touch\<close> returns 0 and changes nothing when the LRU has \<open>DONTMOVE\<close>
  or when the try-lock on its mutex fails. When the lock is acquired it returns 1,
  whether or not it moves the objcore: with \<open>OFFLRU\<close> set it changes nothing, and with
  \<open>OFFLRU\<close> clear it moves the objcore, when that is on its LRU list, to the tail of the
  list. (Nothing is said here about the queues the call leaves for an objcore that has
  \<open>OFFLRU\<close> clear and is on no LRU list, the state in which \<open>exp_inbox\<close> leaves a \<open>DYING\<close>
  objcore; the value returned is 1 there as well.)
\<close>

theorem EXP_Touch_spec:
  "(lru_dontmove (lrus st (oc_getlru st oc)) \<longrightarrow> EXP_Touch st oc = (Inr st, 0))
   \<and> (\<not> lru_dontmove (lrus st (oc_getlru st oc)) \<and> lru_mtx (lrus st (oc_getlru st oc))
        \<longrightarrow> EXP_Touch st oc = (Inr st, 0))
   \<and> (\<not> lru_dontmove (lrus st (oc_getlru st oc)) \<and> \<not> lru_mtx (lrus st (oc_getlru st oc))
        \<longrightarrow> snd (EXP_Touch st oc) = 1)
   \<and> (\<not> lru_dontmove (lrus st (oc_getlru st oc)) \<and> \<not> lru_mtx (lrus st (oc_getlru st oc))
        \<and> OC_F_OFFLRU \<notin> flags (ocs st oc) \<and> oc \<in> set (lru_head (lrus st (oc_getlru st oc)))
        \<longrightarrow> (\<exists>st'. EXP_Touch st oc = (Inr st', 1)
              \<and> lru_head (lrus st' (oc_getlru st oc))
                  = remove1 oc (lru_head (lrus st (oc_getlru st oc))) @ [oc]
              \<and> (\<forall>l. l \<noteq> oc_getlru st oc \<longrightarrow> lrus st' l = lrus st l)
              \<and> n_lru_moved st' = n_lru_moved st + 1
              \<and> ocs st' = ocs st \<and> inbox st' = inbox st \<and> heap st' = heap st))
   \<and> (\<not> lru_dontmove (lrus st (oc_getlru st oc)) \<and> \<not> lru_mtx (lrus st (oc_getlru st oc))
        \<and> OC_F_OFFLRU \<in> flags (ocs st oc)
        \<longrightarrow> EXP_Touch st oc = (Inr st, 1))"
  by (simp add: EXP_Touch_def Let_def)

theorem EXP_Touch_spec_witness:
  "EXP_Touch (lru_upd ex_lru4 0 (\<lambda>r. r\<lparr>lru_dontmove := True\<rparr>)) 0
     = (Inr (lru_upd ex_lru4 0 (\<lambda>r. r\<lparr>lru_dontmove := True\<rparr>)), 0)
   \<and> EXP_Touch (lru_upd ex_lru4 0 (\<lambda>r. r\<lparr>lru_mtx := True\<rparr>)) 0
     = (Inr (lru_upd ex_lru4 0 (\<lambda>r. r\<lparr>lru_mtx := True\<rparr>)), 0)
   \<and> snd (EXP_Touch ex_dead 0) = 1
   \<and> (\<exists>st'. EXP_Touch ex_lru4 0 = (Inr st', 1) \<and> lru_head (lrus st' 0) = [1, 2, 3, 0]
         \<and> n_lru_moved st' = 1)
   \<and> EXP_Touch ex_claimed 0 = (Inr ex_claimed, 1)"
proof -
  have a: "EXP_Touch (lru_upd ex_lru4 0 (\<lambda>r. r\<lparr>lru_dontmove := True\<rparr>)) 0
     = (Inr (lru_upd ex_lru4 0 (\<lambda>r. r\<lparr>lru_dontmove := True\<rparr>)), 0)"
    using EXP_Touch_spec [of "lru_upd ex_lru4 0 (\<lambda>r. r\<lparr>lru_dontmove := True\<rparr>)" 0]
    by (simp add: oc_getlru_def ex_lru4_simps [unfolded oc_getlru_def])
  have b: "EXP_Touch (lru_upd ex_lru4 0 (\<lambda>r. r\<lparr>lru_mtx := True\<rparr>)) 0
     = (Inr (lru_upd ex_lru4 0 (\<lambda>r. r\<lparr>lru_mtx := True\<rparr>)), 0)"
    using EXP_Touch_spec [of "lru_upd ex_lru4 0 (\<lambda>r. r\<lparr>lru_mtx := True\<rparr>)" 0]
    by (simp add: oc_getlru_def ex_lru4_simps [unfolded oc_getlru_def])
  have c: "snd (EXP_Touch ex_dead 0) = 1"
    using EXP_Touch_spec [of ex_dead 0]
    by (simp add: oc_getlru_def ex_dead_simps)
  have d: "\<exists>st'. EXP_Touch ex_lru4 0 = (Inr st', 1) \<and> lru_head (lrus st' 0) = [1, 2, 3, 0]
         \<and> n_lru_moved st' = 1"
    using EXP_Touch_spec [of ex_lru4 0]
    by (auto simp: ex_lru4_simps)
  have e: "EXP_Touch ex_claimed 0 = (Inr ex_claimed, 1)"
    using EXP_Touch_spec [of ex_claimed 0]
    by (simp add: ex_claimed_simps) (simp add: ex_claimed_def ex_resident_def cache_init_def lru_init_def)
  from a b c d e show ?thesis by blast
qed

text \<open>
  C7. \<open>exp_mail_it\<close> puts an objcore with \<open>DYING\<close> at the head of the inbox and any other
  at the tail, and the thread takes the head. Hence, after any objcores \<open>ms\<close> without
  \<open>DYING\<close> have been posted to an inbox and then an objcore \<open>d\<close> with \<open>DYING\<close>, the thread
  takes \<open>d\<close> first, then what was in the inbox before, then \<open>ms\<close> in the order of posting.
\<close>

theorem exp_mail_priority:
  "(OC_F_OFFLRU \<in> flags (ocs st oc) \<and> OC_F_DYING \<in> flags (ocs st oc)
      \<longrightarrow> exp_mail_it st oc = Inr (st\<lparr>inbox := oc # inbox st\<rparr>))
   \<and> (OC_F_OFFLRU \<in> flags (ocs st oc) \<and> OC_F_DYING \<notin> flags (ocs st oc)
      \<longrightarrow> exp_mail_it st oc = Inr (st\<lparr>inbox := inbox st @ [oc]\<rparr>))
   \<and> (inbox st = x # xs \<longrightarrow> exp_dequeue st = (st\<lparr>inbox := xs\<rparr>, Some x))
   \<and> ((\<forall>m\<in>set ms. OC_F_OFFLRU \<in> flags (ocs st m) \<and> OC_F_DYING \<notin> flags (ocs st m))
       \<and> OC_F_OFFLRU \<in> flags (ocs st d) \<and> OC_F_DYING \<in> flags (ocs st d)
      \<longrightarrow> (\<exists>st1 st2. mail_all st ms = Inr st1 \<and> exp_mail_it st1 d = Inr st2
             \<and> inbox st2 = d # inbox st @ ms
             \<and> exp_drain n st2 = take n (d # inbox st @ ms)))"
proof (intro conjI impI)
  assume a: "(\<forall>m\<in>set ms. OC_F_OFFLRU \<in> flags (ocs st m) \<and> OC_F_DYING \<notin> flags (ocs st m))
       \<and> OC_F_OFFLRU \<in> flags (ocs st d) \<and> OC_F_DYING \<in> flags (ocs st d)"
  let ?st1 = "st\<lparr>inbox := inbox st @ ms\<rparr>"
  let ?st2 = "?st1\<lparr>inbox := d # inbox ?st1\<rparr>"
  have m: "mail_all st ms = Inr ?st1" using a by (simp add: mail_all_tail)
  have e: "exp_mail_it ?st1 d = Inr ?st2" using a by (simp add: exp_mail_it_def)
  have "exp_drain n ?st2 = take n (inbox ?st2)" by (rule exp_drain_take)
  with m e show "\<exists>st1 st2. mail_all st ms = Inr st1 \<and> exp_mail_it st1 d = Inr st2
             \<and> inbox st2 = d # inbox st @ ms
             \<and> exp_drain n st2 = take n (d # inbox st @ ms)"
    by simp
qed (simp_all add: exp_mail_it_def exp_dequeue_def)

theorem exp_mail_priority_witness:
  "exp_mail_it ex_mail 2 = Inr (ex_mail\<lparr>inbox := [2]\<rparr>)
   \<and> exp_mail_it ex_mail 0 = Inr (ex_mail\<lparr>inbox := [0]\<rparr>)
   \<and> exp_dequeue (ex_mail\<lparr>inbox := [2, 0, 1]\<rparr>) = (ex_mail\<lparr>inbox := [0, 1]\<rparr>, Some 2)
   \<and> (\<exists>st1 st2. mail_all ex_mail [0, 1] = Inr st1 \<and> exp_mail_it st1 2 = Inr st2
         \<and> inbox st2 = [2, 0, 1] \<and> exp_drain 3 st2 = [2, 0, 1])"
proof -
  have a: "exp_mail_it ex_mail 2 = Inr (ex_mail\<lparr>inbox := [2]\<rparr>)"
    using exp_mail_priority [of ex_mail 2] by (simp add: ex_mail_simps)
  have b: "exp_mail_it ex_mail 0 = Inr (ex_mail\<lparr>inbox := [0]\<rparr>)"
    using exp_mail_priority [of ex_mail 0] by (simp add: ex_mail_simps)
  have c: "exp_dequeue (ex_mail\<lparr>inbox := [2, 0, 1]\<rparr>) = (ex_mail\<lparr>inbox := [0, 1]\<rparr>, Some 2)"
    using exp_mail_priority [of "ex_mail\<lparr>inbox := [2, 0, 1]\<rparr>" 0 2 "[0, 1]"] by simp
  have d: "\<exists>st1 st2. mail_all ex_mail [0, 1] = Inr st1 \<and> exp_mail_it st1 2 = Inr st2
         \<and> inbox st2 = [2, 0, 1] \<and> exp_drain 3 st2 = [2, 0, 1]"
    using exp_mail_priority [of ex_mail 0 0 "[]" "[0, 1]" 2 3]
    by (simp add: ex_mail_simps del: mail_all.simps)
  from a b c d show ?thesis by blast
qed

text \<open>
  C8, as the claim states it, fails: after \<open>EXP_Inject\<close> of an objcore and \<open>EXP_Rearm\<close> of
  its object before the thread has handled the mail, the objcore is in the inbox with
  \<open>INSERT\<close> and \<open>MOVE\<close> both set.
\<close>

theorem mailbox_exclusive_counterexample:
  "EXP_Inject cache_init 0 0 105 = Inr ex_injected
   \<and> EXP_Rearm ex_injected 0 = Inr ex_insert_move
   \<and> reach ex_insert_move \<and> 0 \<in> set (inbox ex_insert_move)
   \<and> OC_F_INSERT \<in> flags (ocs ex_insert_move 0) \<and> OC_F_MOVE \<in> flags (ocs ex_insert_move 0)"
  by (simp add: ex_injected_run ex_insert_move_run reach_ex_insert_move ex_insert_move_simps)

text \<open>
  C8, amended. In every state reachable by an interleaving of the public operations,
  the iterations of the thread and steps of the rest of the program, in which
  \<open>EXP_Touch\<close> and \<open>EXP_Rearm\<close> have not been called for an objcore that has \<open>OFFLRU\<close> clear
  and is on no LRU list (the state in which \<open>exp_inbox\<close> leaves a \<open>DYING\<close> objcore), every
  objcore in the inbox has \<open>OFFLRU\<close> set and at least one of \<open>INSERT\<close>, \<open>MOVE\<close>, \<open>DYING\<close>
  set.
\<close>

theorem mailbox_flags_reachable:
  "reach st \<Longrightarrow>
   \<forall>x\<in>set (inbox st). OC_F_OFFLRU \<in> flags (ocs st x)
     \<and> (OC_F_INSERT \<in> flags (ocs st x) \<or> OC_F_MOVE \<in> flags (ocs st x)
         \<or> OC_F_DYING \<in> flags (ocs st x))"
proof -
  assume "reach st"
  then have "mail_inv st" by (rule reach_mail_inv)
  then show ?thesis by (simp add: mail_inv_def)
qed

theorem mailbox_flags_reachable_witness:
  "reach ex_early_kill \<and> 0 \<in> set (inbox ex_early_kill)
   \<and> OC_F_OFFLRU \<in> flags (ocs ex_early_kill 0)
   \<and> (OC_F_INSERT \<in> flags (ocs ex_early_kill 0) \<or> OC_F_MOVE \<in> flags (ocs ex_early_kill 0)
       \<or> OC_F_DYING \<in> flags (ocs ex_early_kill 0))"
  using mailbox_flags_reachable [OF reach_ex_early_kill]
  by (simp add: reach_ex_early_kill ex_early_kill_simps)

text \<open>
  C9. Reference balance: the thread holds one reference from the \<open>INSERT\<close> mail on and
  is to release it exactly once, when \<open>exp_expire\<close> expires the objcore or when
  \<open>exp_inbox\<close> handles a \<open>DYING\<close> mail. The code does not release it for an objcore that is
  \<open>DYING\<close> before it has entered the heap: \<open>EXP_Inject\<close> posts objcore 0 with \<open>INSERT\<close>
  and hands its one reference to the thread, \<open>EXP_Rearm\<close> with a negative wake time adds
  \<open>DYING\<close> to the pending mail, and whenever the thread then runs, its iteration stops on
  a failed assertion, the reference count still one.
\<close>

theorem exp_thread_early_kill_keeps_reference:
  "EXP_Inject ex_cleared 0 0 110 = Inr ex_posted
   \<and> inbox ex_posted = [0] \<and> flags (ocs ex_posted 0) = {OC_F_OFFLRU, OC_F_INSERT}
   \<and> refcnt (ocs ex_posted 0) = 1
   \<and> EXP_Rearm ex_posted 0 = Inr ex_early_kill
   \<and> inbox ex_early_kill = [0]
   \<and> flags (ocs ex_early_kill 0) = {OC_F_OFFLRU, OC_F_INSERT, OC_F_DYING}
   \<and> heap ex_early_kill = [] \<and> refcnt (ocs ex_early_kill 0) = 1
   \<and> reach ex_early_kill
   \<and> (\<forall>now. exp_thread_iter (ex_early_kill, ex_locals) now = Inl AssertFail)"
  by (simp add: ex_posted_run ex_posted_simps ex_posted_more ex_early_kill_run ex_early_kill_simps
      ex_early_kill_more reach_ex_early_kill exp_thread_iter_early_kill)

text \<open>
  C10. \<open>exp_expire\<close> charges \<open>n_expired\<close> before it looks at \<open>OFFLRU\<close>: for a due root
  that is not \<open>BUSY\<close> and already \<open>OFFLRU\<close>, the call increments \<open>n_expired\<close>, returns
  \<open>now + 0.001\<close> and leaves the heap as it is, so a second call at a later time, before
  the pending mail is handled, increments \<open>n_expired\<close> again for the same objcore.
\<close>

theorem exp_expire_claimed_counts:
  assumes "binheap_root (heap st) = Some oc" "timer_when (ocs st oc) \<le> now" "now \<le> now'"
    "OC_F_BUSY \<notin> flags (ocs st oc)" "OC_F_OFFLRU \<in> flags (ocs st oc)"
    "\<not> lru_mtx (lrus st (oc_getlru st oc))"
  shows "\<exists>st' st''. exp_expire st now = Inr (st', now + 0.001)
     \<and> n_expired st' = n_expired st + 1 \<and> heap st' = heap st
     \<and> exp_expire st' now' = Inr (st'', now' + 0.001)
     \<and> n_expired st'' = n_expired st + 2 \<and> heap st'' = heap st"
proof -
  let ?st' = "oc_upd (st\<lparr>n_expired := n_expired st + 1\<rparr>) oc (\<lambda>c. c\<lparr>flags := flags c \<union> {OC_F_DYING}\<rparr>)"
  let ?st'' = "oc_upd (?st'\<lparr>n_expired := n_expired ?st' + 1\<rparr>) oc (\<lambda>c. c\<lparr>flags := flags c \<union> {OC_F_DYING}\<rparr>)"
  have a: "exp_expire st now = Inr (?st', now + 0.001)"
    using assms by (simp add: exp_expire_yield)
  have b: "exp_expire ?st' now' = Inr (?st'', now' + 0.001)"
    using assms by (intro exp_expire_yield) (simp_all add: oc_getlru_def)
  show ?thesis
    using a b by simp
qed

theorem exp_expire_claimed_counts_witness:
  "\<exists>st' st''. exp_expire ex_claimed 111 = Inr (st', 111.001)
     \<and> n_expired st' = 1 \<and> heap st' = [0]
     \<and> exp_expire st' 111.002 = Inr (st'', 111.003)
     \<and> n_expired st'' = 2 \<and> heap st'' = [0]"
  using exp_expire_claimed_counts [of ex_claimed 0 111 "111.002"]
  by (simp add: binheap_root_def ex_claimed_simps numeral_2_eq_2)


end
